theory Spec2Isabelle
  imports Complex_Main "HOL-Library.Char_ord" "HOL-Library.Sublist"
begin

section \<open>Bytes and character classes\<close>

text \<open>
  A Go \<^verbatim>\<open>string\<close> or \<^verbatim>\<open>[]byte\<close> is a sequence of bytes: \<^typ>\<open>string\<close>. All patterns
  of the program are made of ASCII characters, so that matching them byte by byte
  agrees with Go's matching rune by rune.
\<close>

definition ESC :: char where
  "ESC = CHR 0x1B"

definition CR :: char where
  "CR = CHR 0x0D"

definition LF :: char where
  "LF = CHR 0x0A"

text \<open>The class \<^verbatim>\<open>\d\<close>, that is \<^verbatim>\<open>[0-9]\<close>.\<close>

definition isDigit :: "char \<Rightarrow> bool" where
  "isDigit c \<longleftrightarrow> CHR ''0'' \<le> c \<and> c \<le> CHR ''9''"

text \<open>The class \<^verbatim>\<open>[a-zA-Z]\<close>.\<close>

definition isLetter :: "char \<Rightarrow> bool" where
  "isLetter c \<longleftrightarrow> (CHR ''a'' \<le> c \<and> c \<le> CHR ''z'') \<or> (CHR ''A'' \<le> c \<and> c \<le> CHR ''Z'')"

text \<open>The class \<^verbatim>\<open>\w\<close>, that is \<^verbatim>\<open>[0-9A-Za-z_]\<close>.\<close>

definition isWord :: "char \<Rightarrow> bool" where
  "isWord c \<longleftrightarrow> isDigit c \<or> isLetter c \<or> c = CHR ''_''"

text \<open>The class \<^verbatim>\<open>\s\<close> of Go's regexp syntax, that is \<^verbatim>\<open>[\t\n\f\r ]\<close>.\<close>

definition isReSpace :: "char \<Rightarrow> bool" where
  "isReSpace c \<longleftrightarrow> c = CHR 0x09 \<or> c = LF \<or> c = CHR 0x0C \<or> c = CR \<or> c = CHR '' ''"

section \<open>Regular expressions\<close>

text \<open>
  The fragment of Go's regexp syntax that the program uses: literals, character
  classes, greedy repetition of a class, sequence, the greedy option \<^verbatim>\<open>(...)?\<close>, and the
  assertions \<^verbatim>\<open>$\<close> with and without the flag \<^verbatim>\<open>(?m)\<close>. Capture groups do not change
  what matches and are left out of the syntax tree.
\<close>

datatype regex =
    Lit string
  | Cls "char \<Rightarrow> bool"
  | Many "char \<Rightarrow> bool"
  | Seq regex regex
  | Opt regex
  | EndLine
  | EndText

text \<open>\<^verbatim>\<open>x+\<close> for a class \<^verbatim>\<open>x\<close>.\<close>

definition Many1 :: "(char \<Rightarrow> bool) \<Rightarrow> regex" where
  "Many1 p = Seq (Cls p) (Many p)"

text \<open>
  The remainders of the input after \<^verbatim>\<open>x*\<close>: the longest run first, as the greedy
  star tries them.
\<close>

fun manyRest :: "(char \<Rightarrow> bool) \<Rightarrow> string \<Rightarrow> string list" where
  "manyRest p [] = [[]]"
| "manyRest p (c # cs) = (if p c then manyRest p cs @ [c # cs] else [c # cs])"

text \<open>
  \<open>rmatch r s\<close> lists what is left of \<open>s\<close> after each way of matching \<open>r\<close> at its
  start, in the order a backtracking matcher tries them; the leftmost-first match
  of Go is the head of the list. \<^verbatim>\<open>$\<close> under \<^verbatim>\<open>(?m)\<close> holds at the end of the text
  and before a line feed; without the flag only at the end of the text.
\<close>

fun rmatch :: "regex \<Rightarrow> string \<Rightarrow> string list" where
  "rmatch (Lit l) s = (if prefix l s then [drop (length l) s] else [])"
| "rmatch (Cls p) s = (case s of [] \<Rightarrow> [] | c # cs \<Rightarrow> if p c then [cs] else [])"
| "rmatch (Many p) s = manyRest p s"
| "rmatch (Seq a b) s = concat (map (rmatch b) (rmatch a s))"
| "rmatch (Opt a) s = rmatch a s @ [s]"
| "rmatch EndLine s = (case s of [] \<Rightarrow> [s] | c # _ \<Rightarrow> if c = LF then [s] else [])"
| "rmatch EndText s = (if s = [] then [s] else [])"

text \<open>\<^verbatim>\<open>re.Match(s)\<close>: some position of \<open>s\<close> starts a match.\<close>

fun Match :: "regex \<Rightarrow> string \<Rightarrow> bool" where
  "Match r [] = (rmatch r [] \<noteq> [])"
| "Match r (c # cs) = (rmatch r (c # cs) \<noteq> [] \<or> Match r cs)"

text \<open>
  \<^verbatim>\<open>re.ReplaceAll(s, "")\<close>: the leftmost matches are cut out, one after the other,
  the search going on behind each match. (Only a pattern without empty matches is
  replaced in the program; at an empty match the byte is kept.)
\<close>

function ReplaceAll :: "regex \<Rightarrow> string \<Rightarrow> string" where
  "ReplaceAll r [] = []"
| "ReplaceAll r (c # cs) =
     (case rmatch r (c # cs) of
        [] \<Rightarrow> c # ReplaceAll r cs
      | t # _ \<Rightarrow> if length t \<le> length cs then ReplaceAll r t else c # ReplaceAll r cs)"
  by pat_completeness auto
termination
  by (relation "measure (\<lambda>(r, s). length s)") auto

section \<open>The client: patterns\<close>

text \<open>\<^verbatim>\<open>ansiEscape = regexp.MustCompile(`\x1b\[[0-9;]*[a-zA-Z]`)\<close>\<close>

definition isParam :: "char \<Rightarrow> bool" where
  "isParam c \<longleftrightarrow> isDigit c \<or> c = CHR '';''"

definition ansiEscape :: regex where
  "ansiEscape = Seq (Lit [ESC, CHR ''['']) (Seq (Many isParam) (Cls isLetter))"

text \<open>
  \<open>escComplete b\<close>: every ESC byte of \<open>b\<close> starts a complete escape sequence.
\<close>

fun escComplete :: "string \<Rightarrow> bool" where
  "escComplete [] = True"
| "escComplete (c # cs) = ((c = ESC \<longrightarrow> rmatch ansiEscape (c # cs) \<noteq> []) \<and> escComplete cs)"

text \<open>
  The client's pattern,
  \<^verbatim>\<open>promptRegex = regexp.MustCompile(`(?m)[\r\n]*(SG2210XMP-M2(-N\d+)?(\([^)]*\))?[>#])\s*$`)\<close>.
  Go's negated class \<^verbatim>\<open>[^)]\<close> matches every character but \<^verbatim>\<open>)\<close>, the line feed
  included.
\<close>

definition isCRLF :: "char \<Rightarrow> bool" where
  "isCRLF c \<longleftrightarrow> c = CR \<or> c = LF"

definition notRParen :: "char \<Rightarrow> bool" where
  "notRParen c \<longleftrightarrow> c \<noteq> CHR '')''"

definition isPromptEnd :: "char \<Rightarrow> bool" where
  "isPromptEnd c \<longleftrightarrow> c = CHR ''>'' \<or> c = CHR ''#''"

text \<open>The first group of the pattern: the prompt itself.\<close>

definition promptToken :: regex where
  "promptToken =
     Seq (Lit ''SG2210XMP-M2'')
       (Seq (Opt (Seq (Lit ''-N'') (Many1 isDigit)))
         (Seq (Opt (Seq (Lit ''('') (Seq (Many notRParen) (Lit '')''))))
           (Cls isPromptEnd)))"

definition promptRegex :: regex where
  "promptRegex = Seq (Many isCRLF) (Seq promptToken (Seq (Many isReSpace) EndLine))"

text \<open>
  The pattern of the stand-alone script differs in one place: the parentheses
  must hold at least one character, \<^verbatim>\<open>(\([^)]+\))?\<close>.
\<close>

definition script_promptRegex :: regex where
  "script_promptRegex =
     Seq (Many isCRLF)
       (Seq (Seq (Lit ''SG2210XMP-M2'')
              (Seq (Opt (Seq (Lit ''-N'') (Many1 isDigit)))
                (Seq (Opt (Seq (Lit ''('') (Seq (Many1 notRParen) (Lit '')''))))
                  (Cls isPromptEnd))))
         (Seq (Many isReSpace) EndLine))"

text \<open>
  The reading of the specification: the prompt ends the buffer, with white space
  at most behind it. It is the client's pattern with \<^verbatim>\<open>$\<close> read as the end of the
  text.
\<close>

definition promptAtEnd :: "string \<Rightarrow> bool" where
  "promptAtEnd s = Match (Seq promptToken (Seq (Many isReSpace) EndText)) s"

text \<open>\<open>fullMatch r s\<close>: the whole of \<open>s\<close> is one match of \<open>r\<close>.\<close>

definition fullMatch :: "regex \<Rightarrow> string \<Rightarrow> bool" where
  "fullMatch r s \<longleftrightarrow> [] \<in> set (rmatch r s)"

text \<open>\<open>noAssert r\<close>: \<open>r\<close> has no assertion \<^verbatim>\<open>$\<close>, so a match does not look ahead.\<close>

fun noAssert :: "regex \<Rightarrow> bool" where
  "noAssert (Seq a b) = (noAssert a \<and> noAssert b)"
| "noAssert (Opt a) = noAssert a"
| "noAssert EndLine = False"
| "noAssert EndText = False"
| "noAssert r = True"

section \<open>The client: session engine\<close>

datatype error =
    CtxErr
  | PromptTimeout
  | ReadError string
  | WriteError
  | PoEParseError string
  | InvalidNumber string
  | NilMapPanic

text \<open>
  The writing side of the transport. A write either fails, leaving nothing
  behind, or appends one entry to the log of what was written.
\<close>

record Writer =
  failing :: bool
  written :: "string list"

definition Fprint :: "Writer \<Rightarrow> string \<Rightarrow> Writer \<times> error option" where
  "Fprint w s =
     (if failing w then (w, Some WriteError) else (w\<lparr>written := written w @ [s]\<rparr>, None))"

text \<open>
  The reading side and the clocks. One event is what one turn of the \<^verbatim>\<open>select\<close>
  loop of \<^verbatim>\<open>waitForPrompt\<close> finds: the context is done, the five-second timer has
  fired, or neither, and then \<^verbatim>\<open>Read\<close> returns \<open>n\<close> bytes (the chunk, at most 4096)
  and an error value. A trace is the list of the events of the turns to come; when
  it is used up the call has not returned.
\<close>

datatype readErr = ErrNil | ErrEOF | ErrOther string

datatype event = CtxDone | TimerFired | Read string readErr

type_synonym trace = "event list"

text \<open>
  The test \<^verbatim>\<open>err != nil && err != io.EOF\<close> on what \<^verbatim>\<open>Read\<close> returned: the error
  that ends the loop, if any.
\<close>

definition readFailure :: "readErr \<Rightarrow> error option" where
  "readFailure err = (case err of ErrOther e \<Rightarrow> Some (ReadError e) | _ \<Rightarrow> None)"

text \<open>The fields of \<^verbatim>\<open>Client\<close> that \<^verbatim>\<open>RunCommand\<close> and \<^verbatim>\<open>waitForPrompt\<close> use.\<close>

record Client =
  Password :: string
  stdin :: Writer
  outBuf :: string

text \<open>
  \<^verbatim>\<open>(c *Client) waitForPrompt(ctx)\<close>. The first argument is the local \<^verbatim>\<open>tmp\<close>. The
  result is the error returned (\<open>None\<close> for \<^verbatim>\<open>nil\<close>), the client and the events left.
\<close>

fun waitLoop :: "string \<Rightarrow> trace \<Rightarrow> Client \<Rightarrow> (error option \<times> Client \<times> trace) option" where
  "waitLoop tmp [] c = None"
| "waitLoop tmp (CtxDone # es) c = Some (Some CtxErr, c, es)"
| "waitLoop tmp (TimerFired # es) c = Some (Some PromptTimeout, c, es)"
| "waitLoop tmp (Read chunk err # es) c =
     (case readFailure err of
        Some e \<Rightarrow> Some (Some e, c, es)
      | None \<Rightarrow>
          if chunk \<noteq> [] then
            (let tmp' = tmp @ chunk;
                 c' = c\<lparr>outBuf := outBuf c @ chunk\<rparr>;
                 cleaned = ReplaceAll ansiEscape tmp'
             in if Match promptRegex cleaned then Some (None, c', es)
                else waitLoop tmp' es c')
          else waitLoop tmp es c)"

definition waitForPrompt :: "trace \<Rightarrow> Client \<Rightarrow> (error option \<times> Client \<times> trace) option" where
  "waitForPrompt es c = waitLoop [] es c"

text \<open>\<^verbatim>\<open>strings.ReplaceAll(out, "\r", "")\<close>\<close>

definition removeCR :: "string \<Rightarrow> string" where
  "removeCR s = filter (\<lambda>c. c \<noteq> CR) s"

text \<open>
  \<^verbatim>\<open>(c *Client) RunCommand(ctx, cmd)\<close>. What \<^verbatim>\<open>fmt.Fprint\<close> returns is dropped, as
  in the source.
\<close>

definition RunCommand :: "Client \<Rightarrow> trace \<Rightarrow> string \<Rightarrow> ((error + string) \<times> Client \<times> trace) option" where
  "RunCommand c es cmd =
     (let (w, _) = Fprint (stdin c) (cmd @ [CR, LF]);
          c1 = c\<lparr>stdin := w\<rparr>
      in case waitForPrompt es c1 of
           None \<Rightarrow> None
         | Some (Some e, c2, rest) \<Rightarrow> Some (Inl e, c2, rest)
         | Some (None, c2, rest) \<Rightarrow>
             (let out = ReplaceAll ansiEscape (outBuf c2);
                  out' = removeCR out
              in Some (Inr out', c2\<lparr>outBuf := []\<rparr>, rest)))"

text \<open>
  The bytes that a run of events appends to the buffers: the chunks of the reads
  without a fatal error.
\<close>

fun buffered :: "trace \<Rightarrow> string" where
  "buffered [] = []"
| "buffered (Read chunk err # es) =
     (if readFailure err = None then chunk @ buffered es else buffered es)"
| "buffered (ev # es) = buffered es"

section \<open>The stand-alone script\<close>

text \<open>\<^verbatim>\<open>bytes.Contains(b, sub)\<close>\<close>

fun Contains :: "string \<Rightarrow> string \<Rightarrow> bool" where
  "Contains [] sub = (sub = [])"
| "Contains (c # cs) sub = (prefix sub (c # cs) \<or> Contains cs sub)"

text \<open>
  \<^verbatim>\<open>waitForPrompt(stdin, stdout, password, fullOutput)\<close> of the script. Its context is
  the background context and its \<^verbatim>\<open>select\<close> has no case for it, so a \<open>CtxDone\<close> event
  passes unnoticed. \<^verbatim>\<open>fmt.Fprintln\<close> writes the password and a line feed. The state
  is the writer and \<^verbatim>\<open>fullOutput\<close>.
\<close>

fun script_waitLoop ::
  "string \<Rightarrow> string \<Rightarrow> trace \<Rightarrow> Writer \<times> string \<Rightarrow> (Writer \<times> string \<times> trace) option" where
  "script_waitLoop password tmp [] (w, fullOutput) = None"
| "script_waitLoop password tmp (CtxDone # es) (w, fullOutput) =
     script_waitLoop password tmp es (w, fullOutput)"
| "script_waitLoop password tmp (TimerFired # es) (w, fullOutput) = Some (w, fullOutput, es)"
| "script_waitLoop password tmp (Read raw err # es) (w, fullOutput) =
     (case readFailure err of
        Some e \<Rightarrow> Some (w, fullOutput, es)
      | None \<Rightarrow>
          if raw \<noteq> [] then
            (let fullOutput' = fullOutput @ raw;
                 tmp' = tmp @ raw;
                 cleaned = ReplaceAll ansiEscape tmp'
             in if Contains cleaned ''Password:'' then
                  script_waitLoop password [] es (fst (Fprint w (password @ [LF])), fullOutput')
                else if Match script_promptRegex cleaned then Some (w, fullOutput', es)
                else script_waitLoop password tmp' es (w, fullOutput'))
          else script_waitLoop password tmp es (w, fullOutput))"

definition script_waitForPrompt ::
  "Writer \<Rightarrow> trace \<Rightarrow> string \<Rightarrow> string \<Rightarrow> (Writer \<times> string \<times> trace) option" where
  "script_waitForPrompt w es password fullOutput = script_waitLoop password [] es (w, fullOutput)"

text \<open>The chunks that the reads of a run of events bring, in their order.\<close>

fun dataChunks :: "trace \<Rightarrow> string list" where
  "dataChunks [] = []"
| "dataChunks (Read chunk err # es) =
     (if readFailure err = None \<and> chunk \<noteq> [] then chunk # dataChunks es else dataChunks es)"
| "dataChunks (ev # es) = dataChunks es"

text \<open>
  \<open>asks cs\<close>: the chunks \<open>cs\<close>, put together and stripped, hold the request
  \<^verbatim>\<open>Password:\<close>. \<open>quiet cs\<close>: no start of the run \<open>cs\<close> of chunks asks. \<open>firstAsk seg\<close>:
  the run \<open>seg\<close> asks with its last chunk and not before.
\<close>

definition asks :: "string list \<Rightarrow> bool" where
  "asks cs = Contains (ReplaceAll ansiEscape (concat cs)) ''Password:''"

fun quietFrom :: "string list \<Rightarrow> string list \<Rightarrow> bool" where
  "quietFrom acc [] = True"
| "quietFrom acc (c # cs) = (\<not> asks (acc @ [c]) \<and> quietFrom (acc @ [c]) cs)"

definition quiet :: "string list \<Rightarrow> bool" where
  "quiet cs = quietFrom [] cs"

definition firstAsk :: "string list \<Rightarrow> bool" where
  "firstAsk seg \<longleftrightarrow> seg \<noteq> [] \<and> asks seg \<and> quiet (butlast seg)"

section \<open>Go's \<^verbatim>\<open>strings\<close> and \<^verbatim>\<open>strconv\<close>\<close>

text \<open>
  \<^verbatim>\<open>strings.TrimSpace\<close> and \<^verbatim>\<open>strings.Fields\<close> cut at the white space of Unicode
  (\<^verbatim>\<open>unicode.IsSpace\<close>): the six ASCII characters tab, line feed, vertical tab, form
  feed, carriage return and space, and U+0085, U+00A0, U+1680, U+2000 to U+200A,
  U+2028, U+2029, U+202F, U+205F and U+3000. On bytes these are fixed sequences of
  one to three bytes; a sequence starts with a byte that is no continuation byte
  of UTF-8, so that it is found at the same places whether the text is scanned by
  bytes or by runes. \<open>spaceWidth s\<close> is the number of bytes of the white space
  character at the head of \<open>s\<close>, and 0 when there is none.
\<close>

definition isAsciiSpace :: "char \<Rightarrow> bool" where
  "isAsciiSpace c \<longleftrightarrow>
     c = CHR 0x09 \<or> c = LF \<or> c = CHR 0x0B \<or> c = CHR 0x0C \<or> c = CR \<or> c = CHR '' ''"

fun spaceWidth :: "string \<Rightarrow> nat" where
  "spaceWidth [] = 0"
| "spaceWidth (c # cs) =
     (if isAsciiSpace c then 1
      else if c = CHR 0xC2 then
        (case cs of d # _ \<Rightarrow> if d = CHR 0x85 \<or> d = CHR 0xA0 then 2 else 0 | [] \<Rightarrow> 0)
      else if c = CHR 0xE1 then (if prefix [CHR 0x9A, CHR 0x80] cs then 3 else 0)
      else if c = CHR 0xE2 then
        (case cs of
           d # e # _ \<Rightarrow>
             if d = CHR 0x80 \<and> (CHR 0x80 \<le> e \<and> e \<le> CHR 0x8A
                                 \<or> e = CHR 0xA8 \<or> e = CHR 0xA9 \<or> e = CHR 0xAF)
                \<or> d = CHR 0x81 \<and> e = CHR 0x9F
             then 3 else 0
         | _ \<Rightarrow> 0)
      else if c = CHR 0xE3 then (if prefix [CHR 0x80, CHR 0x80] cs then 3 else 0)
      else 0)"

text \<open>
  The same for the white space character that ends a text, read from the reversed
  text.
\<close>

fun spaceWidthRev :: "string \<Rightarrow> nat" where
  "spaceWidthRev [] = 0"
| "spaceWidthRev (c # cs) =
     (if isAsciiSpace c then 1
      else if 1 \<le> length cs \<and> spaceWidth (rev (take 2 (c # cs))) = 2 then 2
      else if 2 \<le> length cs \<and> spaceWidth (rev (take 3 (c # cs))) = 3 then 3
      else 0)"

function trimLeft :: "string \<Rightarrow> string" where
  "trimLeft [] = []"
| "trimLeft (c # cs) =
     (if 0 < spaceWidth (c # cs) then trimLeft (drop (spaceWidth (c # cs) - 1) cs) else c # cs)"
  by pat_completeness auto
termination
  by (relation "measure length") auto

function trimRev :: "string \<Rightarrow> string" where
  "trimRev [] = []"
| "trimRev (c # cs) =
     (if 0 < spaceWidthRev (c # cs) then trimRev (drop (spaceWidthRev (c # cs) - 1) cs)
      else c # cs)"
  by pat_completeness auto
termination
  by (relation "measure length") auto

text \<open>\<^verbatim>\<open>strings.TrimSpace(s)\<close>\<close>

definition TrimSpace :: "string \<Rightarrow> string" where
  "TrimSpace s = rev (trimRev (rev (trimLeft s)))"

text \<open>
  \<^verbatim>\<open>strings.Fields(s)\<close>. \<open>field s\<close> is the longest start of \<open>s\<close> without white space,
  and what follows it.
\<close>

fun field :: "string \<Rightarrow> string \<times> string" where
  "field [] = ([], [])"
| "field (c # cs) =
     (if 0 < spaceWidth (c # cs) then ([], c # cs)
      else (let (f, r) = field cs in (c # f, r)))"

lemma field_length: "length (snd (field s)) \<le> length s"
  by (induction s) (auto split: prod.splits)

function Fields :: "string \<Rightarrow> string list" where
  "Fields [] = []"
| "Fields (c # cs) =
     (if 0 < spaceWidth (c # cs) then Fields (drop (spaceWidth (c # cs) - 1) cs)
      else (c # fst (field cs)) # Fields (snd (field cs)))"
  by pat_completeness auto
termination
  by (relation "measure length") (auto simp: field_length less_Suc_eq_le)

text \<open>\<^verbatim>\<open>strings.Split(s, sep)\<close> for a separator of one byte.\<close>

fun Split :: "string \<Rightarrow> char \<Rightarrow> string list" where
  "Split [] sep = [[]]"
| "Split (c # cs) sep =
     (if c = sep then [] # Split cs sep
      else (case Split cs sep of l # ls \<Rightarrow> (c # l) # ls | [] \<Rightarrow> [[c]]))"

text \<open>\<^verbatim>\<open>strings.SplitN(s, sep, 2)\<close> for a separator of one byte.\<close>

definition SplitN2 :: "string \<Rightarrow> char \<Rightarrow> string list" where
  "SplitN2 s sep =
     (if sep \<in> set s
      then [takeWhile (\<lambda>c. c \<noteq> sep) s, tl (dropWhile (\<lambda>c. c \<noteq> sep) s)]
      else [s])"

text \<open>\<^verbatim>\<open>strings.Join(elems, sep)\<close>\<close>

fun Join :: "string list \<Rightarrow> string \<Rightarrow> string" where
  "Join [] sep = []"
| "Join [a] sep = a"
| "Join (a # b # r) sep = a @ sep @ Join (b # r) sep"

text \<open>\<^verbatim>\<open>strings.ReplaceAll(s, ",", "")\<close>\<close>

definition removeCommas :: "string \<Rightarrow> string" where
  "removeCommas s = filter (\<lambda>c. c \<noteq> CHR '','') s"

text \<open>
  \<^verbatim>\<open>strconv.Atoi\<close> and \<^verbatim>\<open>strconv.ParseUint(s, 10, 64)\<close>, for Go's \<^verbatim>\<open>int\<close> of 64 bits.
  Both take decimal digits only, \<^verbatim>\<open>Atoi\<close> behind an optional sign; an empty text or
  any other byte is a syntax error, a value outside the type a range error.
\<close>

datatype numError = ErrSyntax | ErrRange

definition decimal :: "string \<Rightarrow> nat" where
  "decimal ds = foldl (\<lambda>n c. 10 * n + (of_char c - 48)) 0 ds"

definition ParseUint :: "string \<Rightarrow> numError + nat" where
  "ParseUint s =
     (if s = [] \<or> \<not> list_all isDigit s then Inl ErrSyntax
      else if decimal s < 2 ^ 64 then Inr (decimal s)
      else Inl ErrRange)"

definition Atoi :: "string \<Rightarrow> numError + int" where
  "Atoi s =
     (let neg = (s \<noteq> [] \<and> hd s = CHR ''-'');
          ds = (if s \<noteq> [] \<and> (hd s = CHR ''-'' \<or> hd s = CHR ''+'') then tl s else s)
      in if ds = [] \<or> \<not> list_all isDigit ds then Inl ErrSyntax
         else if neg then (if decimal ds \<le> 2 ^ 63 then Inr (- int (decimal ds)) else Inl ErrRange)
         else (if decimal ds < 2 ^ 63 then Inr (int (decimal ds)) else Inl ErrRange))"

section \<open>The table parsers\<close>

subsection \<open>Power over Ethernet\<close>

text \<open>
  \<^verbatim>\<open>float64\<close> is a type parameter \<open>'f\<close>, and \<^verbatim>\<open>strconv.ParseFloat(s, 64)\<close> a
  parameter of the parser: a function that gives the number read, or nothing when
  it returns an error.
\<close>

record 'f PoEPort =
  PowerWatts :: 'f
  CurrentMA :: int
  VoltageV :: 'f
  PDClass :: string
  Status :: string

text \<open>The body of the loop of \<^verbatim>\<open>ParsePoETable\<close>, on one line and the map so far.\<close>

definition poeLine ::
  "(string \<Rightarrow> 'f option) \<Rightarrow> string \<Rightarrow> (string \<rightharpoonup> 'f PoEPort) \<Rightarrow> error + (string \<rightharpoonup> 'f PoEPort)" where
  "poeLine ParseFloat l ports =
     (let line = TrimSpace l in
      if prefix ''Tw'' line then
        (let fields = Fields line in
         if length fields < 6 then Inr ports
         else
           (let iface = fields ! 0 in
            case (ParseFloat (fields ! 1), Atoi (fields ! 2), ParseFloat (fields ! 3)) of
              (Some power', Inr current, Some voltage) \<Rightarrow>
                (let pdClass = Join (take (length fields - 1 - 4) (drop 4 fields)) '' '';
                     status = fields ! (length fields - 1)
                 in Inr (ports(iface \<mapsto>
                      \<lparr>PowerWatts = power', CurrentMA = current, VoltageV = voltage,
                       PDClass = pdClass, Status = status\<rparr>)))
            | _ \<Rightarrow> Inl (PoEParseError line)))
      else Inr ports)"

fun poeLoop ::
  "(string \<Rightarrow> 'f option) \<Rightarrow> string list \<Rightarrow> (string \<rightharpoonup> 'f PoEPort) \<Rightarrow> error + (string \<rightharpoonup> 'f PoEPort)" where
  "poeLoop ParseFloat [] ports = Inr ports"
| "poeLoop ParseFloat (l # ls) ports =
     (case poeLine ParseFloat l ports of
        Inl e \<Rightarrow> Inl e
      | Inr ports' \<Rightarrow> poeLoop ParseFloat ls ports')"

definition ParsePoETable ::
  "(string \<Rightarrow> 'f option) \<Rightarrow> string \<Rightarrow> error + (string \<rightharpoonup> 'f PoEPort)" where
  "ParsePoETable ParseFloat output = poeLoop ParseFloat (Split output LF) Map.empty"

subsection \<open>Interface counters\<close>

type_synonym InterfaceCounters = "string \<rightharpoonup> nat"

type_synonym InterfaceStats = "string \<rightharpoonup> InterfaceCounters"

text \<open>
  \<^verbatim>\<open>keyValRegex = regexp.MustCompile(`^([\w\- /]+):\s+([\d,]+)$`)\<close>, in the three
  pieces that its two groups delimit.
\<close>

definition isKeyChar :: "char \<Rightarrow> bool" where
  "isKeyChar c \<longleftrightarrow> isWord c \<or> c = CHR ''-'' \<or> c = CHR '' '' \<or> c = CHR ''/''"

definition isValChar :: "char \<Rightarrow> bool" where
  "isValChar c \<longleftrightarrow> isDigit c \<or> c = CHR '',''"

definition keyValRegex_key :: regex where
  "keyValRegex_key = Many1 isKeyChar"

definition keyValRegex_sep :: regex where
  "keyValRegex_sep = Seq (Lit '':'') (Many1 isReSpace)"

definition keyValRegex_val :: regex where
  "keyValRegex_val = Many1 isValChar"

text \<open>
  \<^verbatim>\<open>keyValRegex.FindStringSubmatch(line)\<close>: the whole match and the two groups of
  the first way to match from the start of the line (\<^verbatim>\<open>^\<close>) to its end (\<^verbatim>\<open>$\<close>), the
  empty list (\<^verbatim>\<open>nil\<close>) when there is none. A group is what its piece has taken from
  the input.
\<close>

definition keyValRegex_FindStringSubmatch :: "string \<Rightarrow> string list" where
  "keyValRegex_FindStringSubmatch line =
     (case concat (map (\<lambda>r1. concat (map (\<lambda>r2. concat (map (\<lambda>r3. map (\<lambda>r4.
               [take (length line - length r3) line,
                take (length line - length r1) line,
                take (length r2 - length r3) r2])
             (rmatch EndText r3))
           (rmatch keyValRegex_val r2)))
         (rmatch keyValRegex_sep r1)))
       (rmatch keyValRegex_key line)) of
        [] \<Rightarrow> []
      | m # _ \<Rightarrow> m)"

text \<open>
  The body of the loop of \<^verbatim>\<open>ParseInterfaceCounters\<close>, on one line and the state
  \<^verbatim>\<open>stats\<close>, \<^verbatim>\<open>currentPort\<close>. Writing into a map that is \<^verbatim>\<open>nil\<close> panics.
\<close>

definition countersLine ::
  "string \<Rightarrow> InterfaceStats \<times> string \<Rightarrow> error + (InterfaceStats \<times> string)" where
  "countersLine l st =
     (let stats = fst st; currentPort = snd st; line = TrimSpace l in
      if prefix ''Port:'' line then
        (let parts = SplitN2 line (CHR '':'') in
         if length parts = 2 then
           (let currentPort' = TrimSpace (parts ! 1)
            in Inr (stats(currentPort' \<mapsto> Map.empty), currentPort'))
         else Inr (stats, currentPort))
      else if currentPort = [] then Inr (stats, currentPort)
      else
        (let matches = keyValRegex_FindStringSubmatch line in
         if length matches = 3 then
           (let key = TrimSpace (matches ! 1);
                valStr = removeCommas (matches ! 2)
            in case ParseUint valStr of
                 Inl err \<Rightarrow> Inl (InvalidNumber key)
               | Inr val \<Rightarrow>
                   (case stats currentPort of
                      None \<Rightarrow> Inl NilMapPanic
                    | Some counters \<Rightarrow>
                        Inr (stats(currentPort \<mapsto> counters(key \<mapsto> val)), currentPort)))
         else Inr (stats, currentPort)))"

fun countersLoop ::
  "string list \<Rightarrow> InterfaceStats \<times> string \<Rightarrow> error + (InterfaceStats \<times> string)" where
  "countersLoop [] st = Inr st"
| "countersLoop (l # ls) st =
     (case countersLine l st of
        Inl e \<Rightarrow> Inl e
      | Inr st' \<Rightarrow> countersLoop ls st')"

definition ParseInterfaceCounters :: "string \<Rightarrow> error + InterfaceStats" where
  "ParseInterfaceCounters output =
     (case countersLoop (Split output LF) (Map.empty, []) of
        Inl e \<Rightarrow> Inl e
      | Inr st \<Rightarrow> Inr (fst st))"

subsection \<open>Interface status\<close>

record InterfaceStatus =
  is_Port :: string
  is_Status :: string
  is_Speed :: string
  is_Duplex :: string
  is_FlowCtrl :: string
  is_ActiveMedium :: string
  is_Description :: string

definition statusLine :: "string \<Rightarrow> InterfaceStatus list \<Rightarrow> error + InterfaceStatus list" where
  "statusLine l results =
     (let line = TrimSpace l in
      if prefix ''Port'' line \<or> prefix ''----'' line \<or> line = [] then Inr results
      else
        (let fields = Fields line in
         if 6 \<le> length fields then
           (let desc = Join (drop 6 fields) '' ''
            in Inr (results @
                 [\<lparr>is_Port = fields ! 0, is_Status = fields ! 1, is_Speed = fields ! 2,
                   is_Duplex = fields ! 3, is_FlowCtrl = fields ! 4,
                   is_ActiveMedium = fields ! 5, is_Description = desc\<rparr>]))
         else Inr results))"

fun statusLoop :: "string list \<Rightarrow> InterfaceStatus list \<Rightarrow> error + InterfaceStatus list" where
  "statusLoop [] results = Inr results"
| "statusLoop (l # ls) results =
     (case statusLine l results of
        Inl e \<Rightarrow> Inl e
      | Inr results' \<Rightarrow> statusLoop ls results')"

definition ParseInterfaceStatus :: "string \<Rightarrow> error + InterfaceStatus list" where
  "ParseInterfaceStatus output = statusLoop (Split output LF) []"

subsection \<open>MAC address table\<close>

record MACEntry =
  MAC :: string
  VLAN :: int
  me_Port :: string
  me_Type :: string
  Aging :: string

definition macLine :: "string \<Rightarrow> MACEntry list \<Rightarrow> error + MACEntry list" where
  "macLine l results =
     (let line = TrimSpace l in
      if prefix ''MAC'' line \<or> prefix ''---'' line \<or> prefix ''Total'' line \<or> line = []
      then Inr results
      else
        (let fields = Fields line in
         if length fields = 5 then
           (case Atoi (fields ! 1) of
              Inl err \<Rightarrow> Inr results
            | Inr vlan \<Rightarrow>
                Inr (results @
                  [\<lparr>MAC = fields ! 0, VLAN = vlan, me_Port = fields ! 2,
                    me_Type = fields ! 3, Aging = fields ! 4\<rparr>]))
         else Inr results))"

fun macLoop :: "string list \<Rightarrow> MACEntry list \<Rightarrow> error + MACEntry list" where
  "macLoop [] results = Inr results"
| "macLoop (l # ls) results =
     (case macLine l results of
        Inl e \<Rightarrow> Inl e
      | Inr results' \<Rightarrow> macLoop ls results')"

definition ParseMACTable :: "string \<Rightarrow> error + MACEntry list" where
  "ParseMACTable output = macLoop (Split output LF) []"

subsection \<open>Interface configuration\<close>

record InterfaceConfig =
  ic_Port :: string
  ic_State :: string
  ic_Speed :: string
  ic_Duplex :: string
  ic_FlowCtrl :: string
  ic_Description :: string

definition configLine :: "string \<Rightarrow> InterfaceConfig list \<Rightarrow> error + InterfaceConfig list" where
  "configLine l results =
     (let line = TrimSpace l in
      if prefix ''Port'' line \<or> prefix ''----'' line \<or> line = [] then Inr results
      else
        (let fields = Fields line in
         if 5 \<le> length fields then
           (let desc = Join (drop 5 fields) '' ''
            in Inr (results @
                 [\<lparr>ic_Port = fields ! 0, ic_State = fields ! 1, ic_Speed = fields ! 2,
                   ic_Duplex = fields ! 3, ic_FlowCtrl = fields ! 4, ic_Description = desc\<rparr>]))
         else Inr results))"

fun configLoop :: "string list \<Rightarrow> InterfaceConfig list \<Rightarrow> error + InterfaceConfig list" where
  "configLoop [] results = Inr results"
| "configLoop (l # ls) results =
     (case configLine l results of
        Inl e \<Rightarrow> Inl e
      | Inr results' \<Rightarrow> configLoop ls results')"

definition ParseInterfaceConfig :: "string \<Rightarrow> error + InterfaceConfig list" where
  "ParseInterfaceConfig output = configLoop (Split output LF) []"

section \<open>Evaluation\<close>

lemmas cls_defs = ESC_def CR_def LF_def isDigit_def isLetter_def isWord_def isReSpace_def
  isParam_def isCRLF_def notRParen_def isPromptEnd_def Many1_def isAsciiSpace_def
  isKeyChar_def isValChar_def

lemmas re_defs = ansiEscape_def promptToken_def promptRegex_def script_promptRegex_def

section \<open>Properties of the matcher\<close>

lemma manyRest_suffix: "t \<in> set (manyRest p s) \<Longrightarrow> suffix t s"
  by (induction s) (auto split: if_splits simp: suffix_Cons)

lemma rmatch_suffix: "t \<in> set (rmatch r s) \<Longrightarrow> suffix t s"
proof (induction r arbitrary: s t)
  case (Lit l)
  then show ?case by (auto split: if_splits simp: suffix_drop)
next
  case (Cls p)
  then show ?case by (auto split: list.splits if_splits simp: suffix_Cons)
next
  case (Many p)
  then show ?case by (simp add: manyRest_suffix)
next
  case (Seq a b)
  then show ?case by (auto) (meson suffix_order.trans)
next
  case (Opt a)
  then show ?case by auto
next
  case EndLine
  then show ?case by (auto split: list.splits if_splits)
next
  case EndText
  then show ?case by (auto split: if_splits)
qed

lemma manyRest_iff: "t \<in> set (manyRest p s) \<longleftrightarrow> (\<exists>m. s = m @ t \<and> (\<forall>c\<in>set m. p c))"
proof (induction s)
  case Nil
  then show ?case by auto
next
  case (Cons c cs)
  show ?case
  proof
    assume "t \<in> set (manyRest p (c # cs))"
    then consider "t = c # cs" | "p c" "t \<in> set (manyRest p cs)"
      by (auto split: if_splits)
    then show "\<exists>m. c # cs = m @ t \<and> (\<forall>c\<in>set m. p c)"
    proof cases
      case 1
      then show ?thesis by auto
    next
      case 2
      with Cons obtain m where "cs = m @ t" "\<forall>c\<in>set m. p c" by auto
      with 2 have "c # cs = (c # m) @ t \<and> (\<forall>x\<in>set (c # m). p x)" by simp
      then show ?thesis by blast
    qed
  next
    assume "\<exists>m. c # cs = m @ t \<and> (\<forall>c\<in>set m. p c)"
    then obtain m where m: "c # cs = m @ t" "\<forall>c\<in>set m. p c" by blast
    show "t \<in> set (manyRest p (c # cs))"
    proof (cases m)
      case Nil
      with m show ?thesis by auto
    next
      case (Cons d ds)
      with m have "p c" "cs = ds @ t" "\<forall>c\<in>set ds. p c" by auto
      with Cons.IH show ?thesis by auto
    qed
  qed
qed

lemma rmatch_append: "noAssert r \<Longrightarrow> t \<in> set (rmatch r s) \<Longrightarrow> t @ y \<in> set (rmatch r (s @ y))"
proof (induction r arbitrary: s t)
  case (Lit l)
  from Lit.prems obtain z where "s = l @ z" "t = z"
    by (auto split: if_splits elim!: prefixE)
  then show ?case by simp
next
  case (Cls p)
  then show ?case by (auto split: list.splits if_splits)
next
  case (Many p)
  then show ?case by (auto simp: manyRest_iff)
next
  case (Seq a b)
  from Seq.prems obtain u where u: "u \<in> set (rmatch a s)" and t: "t \<in> set (rmatch b u)"
    and na: "noAssert a" and nb: "noAssert b" by auto
  from Seq.IH(1) [OF na u] Seq.IH(2) [OF nb t] show ?case by auto
next
  case (Opt a)
  then show ?case by auto
qed simp_all

lemma rmatch_local:
  "noAssert r \<Longrightarrow> t \<in> set (rmatch r s) \<Longrightarrow> \<exists>m. s = m @ t \<and> fullMatch r m"
proof (induction r arbitrary: s t)
  case (Lit l)
  from Lit.prems obtain z where "s = l @ z" "t = z"
    by (auto split: if_splits elim!: prefixE)
  then show ?case by (simp add: fullMatch_def)
next
  case (Cls p)
  then show ?case by (auto split: list.splits if_splits simp: fullMatch_def)
next
  case (Many p)
  then show ?case by (auto simp: manyRest_iff fullMatch_def)
next
  case (Seq a b)
  from Seq.prems obtain u where u: "u \<in> set (rmatch a s)" and t: "t \<in> set (rmatch b u)"
    and na: "noAssert a" and nb: "noAssert b" by auto
  from Seq.IH(1) [OF na u] obtain m1 where m1: "s = m1 @ u" "fullMatch a m1" by blast
  from Seq.IH(2) [OF nb t] obtain m2 where m2: "u = m2 @ t" "fullMatch b m2" by blast
  from m1(2) have "[] @ m2 \<in> set (rmatch a (m1 @ m2))"
    unfolding fullMatch_def by (rule rmatch_append [OF na])
  with m2(2) have "fullMatch (Seq a b) (m1 @ m2)"
    unfolding fullMatch_def by auto
  with m1 m2 show ?case by auto
next
  case (Opt a)
  from Opt.prems have "t \<in> set (rmatch a s) \<or> t = s" by auto
  then show ?case
  proof
    assume "t \<in> set (rmatch a s)"
    with Opt obtain m where "s = m @ t" "fullMatch a m" by auto
    then show ?thesis by (auto simp: fullMatch_def)
  next
    assume "t = s"
    then show ?thesis by (auto simp: fullMatch_def)
  qed
qed simp_all

lemma Match_iff: "Match r s \<longleftrightarrow> (\<exists>pre u. s = pre @ u \<and> rmatch r u \<noteq> [])"
proof (induction s)
  case Nil
  then show ?case by simp
next
  case (Cons c cs)
  show ?case
  proof
    assume "Match r (c # cs)"
    then consider "rmatch r (c # cs) \<noteq> []" | "Match r cs" by auto
    then show "\<exists>pre u. c # cs = pre @ u \<and> rmatch r u \<noteq> []"
    proof cases
      case 1
      then have "c # cs = [] @ (c # cs) \<and> rmatch r (c # cs) \<noteq> []" by simp
      then show ?thesis by blast
    next
      case 2
      with Cons obtain pre u where "cs = pre @ u" "rmatch r u \<noteq> []" by auto
      then have "c # cs = (c # pre) @ u \<and> rmatch r u \<noteq> []" by simp
      then show ?thesis by blast
    qed
  next
    assume "\<exists>pre u. c # cs = pre @ u \<and> rmatch r u \<noteq> []"
    then obtain pre u where pu: "c # cs = pre @ u" "rmatch r u \<noteq> []" by blast
    show "Match r (c # cs)"
    proof (cases pre)
      case Nil
      with pu show ?thesis by auto
    next
      case (Cons d ds)
      with pu have "cs = ds @ u" by simp
      with pu(2) Cons.IH show ?thesis by auto
    qed
  qed
qed

lemma ReplaceAll_length: "length (ReplaceAll r s) \<le> length s"
proof (induction r s rule: ReplaceAll.induct)
  case (1 r)
  then show ?case by simp
next
  case (2 r c cs)
  show ?case
  proof (cases "rmatch r (c # cs)")
    case Nil
    with 2 show ?thesis by simp
  next
    case (Cons t ts)
    with 2 show ?thesis by (cases "length t \<le> length cs") auto
  qed
qed

lemma ReplaceAll_no_match: "\<not> Match r s \<Longrightarrow> ReplaceAll r s = s"
  by (induction s) auto

lemma ReplaceAll_shrinks:
  assumes ne: "\<And>s t. t \<in> set (rmatch r s) \<Longrightarrow> length t < length s"
  shows "Match r s \<Longrightarrow> length (ReplaceAll r s) < length s"
proof (induction s)
  case Nil
  then have "rmatch r [] \<noteq> []" by simp
  then obtain t where "t \<in> set (rmatch r [])" by (cases "rmatch r []") auto
  from ne [OF this] show ?case by simp
next
  case (Cons c cs)
  show ?case
  proof (cases "rmatch r (c # cs)")
    case Nil
    with Cons show ?thesis by auto
  next
    case (Cons t ts)
    then have "t \<in> set (rmatch r (c # cs))" by simp
    from ne [OF this] have lt: "length t \<le> length cs" by simp
    have "length (ReplaceAll r t) \<le> length t" by (rule ReplaceAll_length)
    with lt Cons show ?thesis by simp
  qed
qed

section \<open>Escape sequences\<close>

lemma rmatch_ansiEscape_shorter: "t \<in> set (rmatch ansiEscape s) \<Longrightarrow> length t < length s"
proof -
  assume "t \<in> set (rmatch ansiEscape s)"
  then obtain u where u: "u \<in> set (rmatch (Lit [ESC, CHR ''['']) s)"
    and t: "t \<in> set (rmatch (Seq (Many isParam) (Cls isLetter)) u)"
    by (auto simp: ansiEscape_def)
  from u have "length u < length s" by (auto split: if_splits simp: prefix_def)
  moreover from t have "length t \<le> length u" by (rule suffix_length_le [OF rmatch_suffix])
  ultimately show ?thesis by simp
qed

lemma ansiEscape_fixpoint: "ReplaceAll ansiEscape s = s \<longleftrightarrow> \<not> Match ansiEscape s"
proof
  assume eq: "ReplaceAll ansiEscape s = s"
  show "\<not> Match ansiEscape s"
  proof
    assume "Match ansiEscape s"
    then have "length (ReplaceAll ansiEscape s) < length s"
      by (rule ReplaceAll_shrinks [rotated]) (rule rmatch_ansiEscape_shorter)
    with eq show False by simp
  qed
next
  assume "\<not> Match ansiEscape s"
  then show "ReplaceAll ansiEscape s = s" by (rule ReplaceAll_no_match)
qed

lemma rmatch_ansiEscape_ESC: "rmatch ansiEscape s \<noteq> [] \<Longrightarrow> \<exists>u. s = ESC # u"
  by (auto simp: ansiEscape_def prefix_def split: if_splits)

lemma no_ESC_no_match: "ESC \<notin> set s \<Longrightarrow> \<not> Match ansiEscape s"
proof (induction s)
  case Nil
  then show ?case using rmatch_ansiEscape_ESC [of "[]"] by auto
next
  case (Cons c cs)
  then show ?case using rmatch_ansiEscape_ESC [of "c # cs"] by auto
qed

lemma escComplete_suffix: "suffix t s \<Longrightarrow> escComplete s \<Longrightarrow> escComplete t"
  by (induction s) (auto simp: suffix_Cons)

lemma escComplete_strip: "escComplete s \<Longrightarrow> ESC \<notin> set (ReplaceAll ansiEscape s)"
proof (induction ansiEscape s rule: ReplaceAll.induct)
  case 1
  then show ?case by simp
next
  case (2 c cs)
  show ?case
  proof (cases "rmatch ansiEscape (c # cs)")
    case Nil
    with 2 show ?thesis by auto
  next
    case (Cons t ts)
    then have "t \<in> set (rmatch ansiEscape (c # cs))" by simp
    then have lt: "length t < length (c # cs)" and suf: "suffix t (c # cs)"
      by (rule rmatch_ansiEscape_shorter, rule rmatch_suffix)
    from suf "2.prems" have "escComplete t" by (rule escComplete_suffix)
    with 2 Cons lt show ?thesis by simp
  qed
qed

lemma strip_append_no_ESC:
  "ESC \<notin> set a \<Longrightarrow> ReplaceAll ansiEscape (a @ b) = a @ ReplaceAll ansiEscape b"
proof (induction a)
  case Nil
  then show ?case by simp
next
  case (Cons c cs)
  then have "rmatch ansiEscape (c # cs @ b) = []"
    using rmatch_ansiEscape_ESC [of "c # cs @ b"] by auto
  with Cons show ?case by simp
qed

text \<open>
  Claim C2, as amended. Stripping is not idempotent on every buffer: cutting a
  sequence out can join an unfinished \<^verbatim>\<open>ESC [\<close> before it with a letter behind it.
  Stripping a stripped buffer again changes nothing exactly when the stripped
  buffer holds no escape sequence any more; this is so, in particular, for every
  buffer in which each ESC byte starts a complete escape sequence.
\<close>

theorem strip_idempotent_iff:
  "(ReplaceAll ansiEscape (ReplaceAll ansiEscape b) = ReplaceAll ansiEscape b
      \<longleftrightarrow> \<not> Match ansiEscape (ReplaceAll ansiEscape b))
   \<and> (escComplete b \<longrightarrow>
        ReplaceAll ansiEscape (ReplaceAll ansiEscape b) = ReplaceAll ansiEscape b)"
  using ansiEscape_fixpoint [of "ReplaceAll ansiEscape b"] escComplete_strip [of b]
    no_ESC_no_match [of "ReplaceAll ansiEscape b"] by blast

theorem strip_idempotent_iff_witness:
  "escComplete (ESC # ''[1;32mup'' @ ESC # ''[0m'')
   \<and> ReplaceAll ansiEscape (ReplaceAll ansiEscape (ESC # ''[1;32mup'' @ ESC # ''[0m''))
       = ReplaceAll ansiEscape (ESC # ''[1;32mup'' @ ESC # ''[0m'')
   \<and> ReplaceAll ansiEscape (ESC # ''[1;32mup'' @ ESC # ''[0m'') = ''up''"
proof -
  have c: "escComplete (ESC # ''[1;32mup'' @ ESC # ''[0m'')"
    by (simp add: cls_defs re_defs)
  have v: "ReplaceAll ansiEscape (ESC # ''[1;32mup'' @ ESC # ''[0m'') = ''up''"
    by (simp add: cls_defs re_defs)
  from c strip_idempotent_iff [of "ESC # ''[1;32mup'' @ ESC # ''[0m''"] v
  show ?thesis by blast
qed

text \<open>
  The buffer \<^verbatim>\<open>ESC [ ESC [ 0 m A\<close>: the first pass leaves \<^verbatim>\<open>ESC [ A\<close>, the second
  pass removes it.
\<close>

theorem strip_idempotent_counterexample:
  "ReplaceAll ansiEscape (ReplaceAll ansiEscape ([ESC, CHR ''['', ESC] @ ''[0mA''))
     \<noteq> ReplaceAll ansiEscape ([ESC, CHR ''['', ESC] @ ''[0mA'')"
  by (simp add: cls_defs re_defs)

section \<open>The prompt matcher\<close>

lemma noAssert_promptToken: "noAssert promptToken"
  by (simp add: promptToken_def Many1_def)

lemma promptRegex_shape:
  assumes "Match promptRegex s"
  shows "\<exists>pre tok ws rest. s = pre @ tok @ ws @ rest \<and> fullMatch promptToken tok
           \<and> (\<forall>c\<in>set ws. isReSpace c) \<and> (rest = [] \<or> hd rest = LF)"
proof -
  from assms obtain pre u where s: "s = pre @ u" and ne: "rmatch promptRegex u \<noteq> []"
    by (auto simp: Match_iff)
  from ne obtain t where "t \<in> set (rmatch promptRegex u)"
    by (cases "rmatch promptRegex u") auto
  then obtain u1 u2 u3 where u1: "u1 \<in> set (manyRest isCRLF u)"
    and u2: "u2 \<in> set (rmatch promptToken u1)"
    and u3: "u3 \<in> set (manyRest isReSpace u2)"
    and t: "t \<in> set (rmatch EndLine u3)"
    by (auto simp: promptRegex_def)
  from u1 obtain nl where nl: "u = nl @ u1" by (auto simp: manyRest_iff)
  from rmatch_local [OF noAssert_promptToken u2]
  obtain tok where tok: "u1 = tok @ u2" "fullMatch promptToken tok" by blast
  from u3 obtain ws where ws: "u2 = ws @ u3" "\<forall>c\<in>set ws. isReSpace c"
    by (auto simp: manyRest_iff)
  from t have e: "u3 = [] \<or> hd u3 = LF" by (auto split: list.splits if_splits)
  from s nl tok ws have "s = (pre @ nl) @ tok @ ws @ u3" by simp
  with tok(2) ws(2) e show ?thesis by blast
qed

lemma promptToken_last:
  assumes "fullMatch promptToken tok"
  shows "tok \<noteq> [] \<and> isPromptEnd (last tok)"
proof -
  have seq: "\<And>a b s t. t \<in> set (rmatch (Seq a b) s) \<Longrightarrow> \<exists>u\<in>set (rmatch a s). t \<in> set (rmatch b u)"
    by auto
  from assms have "[] \<in> set (rmatch promptToken tok)" by (simp add: fullMatch_def)
  then obtain a where a: "a \<in> set (rmatch (Lit ''SG2210XMP-M2'') tok)"
    and 1: "[] \<in> set (rmatch (Seq (Opt (Seq (Lit ''-N'') (Many1 isDigit)))
         (Seq (Opt (Seq (Lit ''('') (Seq (Many notRParen) (Lit '')''))))
           (Cls isPromptEnd))) a)"
    unfolding promptToken_def by (blast dest: seq)
  from 1 obtain b where b: "b \<in> set (rmatch (Opt (Seq (Lit ''-N'') (Many1 isDigit))) a)"
    and 2: "[] \<in> set (rmatch (Seq (Opt (Seq (Lit ''('') (Seq (Many notRParen) (Lit '')''))))
           (Cls isPromptEnd)) b)"
    by (blast dest: seq)
  from 2 obtain d where d: "d \<in> set (rmatch (Opt (Seq (Lit ''('') (Seq (Many notRParen) (Lit '')'')))) b)"
    and e: "[] \<in> set (rmatch (Cls isPromptEnd) d)"
    by (blast dest: seq)
  from a b d have "suffix d tok"
    by (meson rmatch_suffix suffix_order.trans)
  moreover from e obtain c where "d = [c]" "isPromptEnd c"
    by (auto split: list.splits if_splits)
  ultimately have "\<exists>u c. suffix u tok \<and> u = [c] \<and> isPromptEnd c" by blast
  then show ?thesis by (auto simp: suffix_def)
qed

lemma prompt_prefix_no_match:
  assumes tok: "fullMatch promptToken t" and p: "strict_prefix p t"
    and clean: "\<forall>c\<in>set (butlast t). \<not> isPromptEnd c"
  shows "\<not> Match promptRegex p"
proof
  assume "Match promptRegex p"
  from promptRegex_shape [OF this] obtain pre k ws rest
    where dec: "p = pre @ k @ ws @ rest" and k: "fullMatch promptToken k" by blast
  from promptToken_last [OF k] have "k \<noteq> []" "isPromptEnd (last k)" by auto
  then have "last k \<in> set p" using dec by auto
  moreover from p obtain zs where "t = p @ zs" "zs \<noteq> []"
    by (auto simp: strict_prefix_def prefix_def)
  then have "set p \<subseteq> set (butlast t)"
    by (simp add: butlast_append)
  ultimately show False using clean \<open>isPromptEnd (last k)\<close> by blast
qed

text \<open>
  Claim C3, as amended. The pattern carries the flag \<^verbatim>\<open>(?m)\<close>, so its \<^verbatim>\<open>$\<close> holds at
  the end of every line: the matcher reports a match only if a complete prompt
  stands at the end of some line of the buffer, with white space at most between
  it and the line feed or the end of the buffer; what follows on later lines is
  free. A proper start of a prompt does not match, provided that no \<^verbatim>\<open>>\<close> or \<^verbatim>\<open>#\<close>
  stands in the prompt before its last character.
\<close>

theorem prompt_match_end_of_line:
  "(Match promptRegex s \<longrightarrow>
      (\<exists>pre tok ws rest. s = pre @ tok @ ws @ rest \<and> fullMatch promptToken tok
          \<and> (\<forall>c\<in>set ws. isReSpace c) \<and> (rest = [] \<or> (\<exists>r. rest = LF # r))))
   \<and> (fullMatch promptToken t \<and> strict_prefix p t \<and> (\<forall>c\<in>set (butlast t). \<not> isPromptEnd c)
        \<longrightarrow> \<not> Match promptRegex p)"
proof (intro conjI impI)
  assume "Match promptRegex s"
  from promptRegex_shape [OF this] obtain pre tok ws rest where
    d: "s = pre @ tok @ ws @ rest" "fullMatch promptToken tok" "\<forall>c\<in>set ws. isReSpace c"
    and e: "rest = [] \<or> hd rest = LF" by blast
  from e have "rest = [] \<or> (\<exists>r. rest = LF # r)" by (cases rest) auto
  with d show "\<exists>pre tok ws rest. s = pre @ tok @ ws @ rest \<and> fullMatch promptToken tok
          \<and> (\<forall>c\<in>set ws. isReSpace c) \<and> (rest = [] \<or> (\<exists>r. rest = LF # r))" by blast
next
  assume "fullMatch promptToken t \<and> strict_prefix p t \<and> (\<forall>c\<in>set (butlast t). \<not> isPromptEnd c)"
  then have "fullMatch promptToken t" "strict_prefix p t"
    "\<forall>c\<in>set (butlast t). \<not> isPromptEnd c" by simp_all
  then show "\<not> Match promptRegex p" by (rule prompt_prefix_no_match)
qed

theorem prompt_match_end_of_line_witness:
  "Match promptRegex (''show'' @ [CR, LF] @ ''SG2210XMP-M2(config)# '')
   \<and> (\<exists>pre tok ws rest. ''show'' @ [CR, LF] @ ''SG2210XMP-M2(config)# '' = pre @ tok @ ws @ rest
          \<and> fullMatch promptToken tok \<and> (\<forall>c\<in>set ws. isReSpace c)
          \<and> (rest = [] \<or> (\<exists>r. rest = LF # r)))
   \<and> fullMatch promptToken ''SG2210XMP-M2(config)#''
   \<and> strict_prefix ''SG2210XMP-M2(config)'' ''SG2210XMP-M2(config)#''
   \<and> list_all (\<lambda>c. \<not> isPromptEnd c) (butlast ''SG2210XMP-M2(config)#'')
   \<and> \<not> Match promptRegex ''SG2210XMP-M2(config)''"
proof -
  have m: "Match promptRegex (''show'' @ [CR, LF] @ ''SG2210XMP-M2(config)# '')"
    by (simp add: cls_defs re_defs)
  have f: "fullMatch promptToken ''SG2210XMP-M2(config)#''"
    by (simp add: fullMatch_def cls_defs re_defs)
  have q: "strict_prefix ''SG2210XMP-M2(config)'' ''SG2210XMP-M2(config)#''"
    by (simp add: strict_prefix_def)
  have b: "\<forall>c\<in>set (butlast ''SG2210XMP-M2(config)#''). \<not> isPromptEnd c"
    by (simp add: isPromptEnd_def)
  have b': "list_all (\<lambda>c. \<not> isPromptEnd c) (butlast ''SG2210XMP-M2(config)#'')"
    by (simp add: isPromptEnd_def)
  from m f q b b'
    prompt_match_end_of_line [of "''show'' @ [CR, LF] @ ''SG2210XMP-M2(config)# ''"
      "''SG2210XMP-M2(config)#''" "''SG2210XMP-M2(config)''"]
  show ?thesis by blast
qed

text \<open>
  A prompt line with a further line of output behind it matches, although the
  prompt does not end the buffer.
\<close>

theorem prompt_match_counterexample:
  "Match promptRegex (''SG2210XMP-M2#'' @ [LF] @ ''show version'')
   \<and> \<not> promptAtEnd (''SG2210XMP-M2#'' @ [LF] @ ''show version'')"
  by (simp add: promptAtEnd_def cls_defs re_defs)

section \<open>The read cycle of the client\<close>

lemma waitLoop_inv:
  "waitLoop tmp es c = Some (r, c', rest) \<Longrightarrow>
     \<exists>used. es = used @ rest \<and> outBuf c' = outBuf c @ buffered used
       \<and> stdin c' = stdin c \<and> Password c' = Password c"
proof (induction tmp es c rule: waitLoop.induct)
  case (1 tmp c)
  then show ?case by simp
next
  case (2 tmp es c)
  then have "CtxDone # es = [CtxDone] @ rest \<and> outBuf c' = outBuf c @ buffered [CtxDone]
    \<and> stdin c' = stdin c \<and> Password c' = Password c" by auto
  then show ?case by blast
next
  case (3 tmp es c)
  then have "TimerFired # es = [TimerFired] @ rest \<and> outBuf c' = outBuf c @ buffered [TimerFired]
    \<and> stdin c' = stdin c \<and> Password c' = Password c" by auto
  then show ?case by blast
next
  case (4 tmp chunk err es c)
  let ?ev = "Read chunk err"
  let ?c1 = "c\<lparr>outBuf := outBuf c @ chunk\<rparr>"
  let ?hit = "Match promptRegex (ReplaceAll ansiEscape (tmp @ chunk))"
  consider (fatal) e where "readFailure err = Some e"
    | (empty) "readFailure err = None" "chunk = []"
    | (hit) "readFailure err = None" "chunk \<noteq> []" ?hit
    | (miss) "readFailure err = None" "chunk \<noteq> []" "\<not> ?hit"
    by (cases "readFailure err") auto
  then show ?case
  proof cases
    case fatal
    with "4.prems" have "?ev # es = [?ev] @ rest \<and> outBuf c' = outBuf c @ buffered [?ev]
      \<and> stdin c' = stdin c \<and> Password c' = Password c" by auto
    then show ?thesis by blast
  next
    case empty
    with "4.prems" have "waitLoop tmp es c = Some (r, c', rest)" by simp
    from "4.IH"(2) [OF empty(1) _ this] empty(2) obtain used where
      "es = used @ rest" "outBuf c' = outBuf c @ buffered used"
      "stdin c' = stdin c" "Password c' = Password c" by auto
    with empty have "?ev # es = (?ev # used) @ rest
      \<and> outBuf c' = outBuf c @ buffered (?ev # used)
      \<and> stdin c' = stdin c \<and> Password c' = Password c" by simp
    then show ?thesis by blast
  next
    case hit
    with "4.prems" have "c' = ?c1" "rest = es" by (simp_all add: Let_def)
    with hit have "?ev # es = [?ev] @ rest \<and> outBuf c' = outBuf c @ buffered [?ev]
      \<and> stdin c' = stdin c \<and> Password c' = Password c" by simp
    then show ?thesis by blast
  next
    case miss
    with "4.prems" have run: "waitLoop (tmp @ chunk) es ?c1 = Some (r, c', rest)"
      by (simp add: Let_def)
    from "4.IH"(1) [OF miss(1) miss(2) refl refl refl miss(3) run] obtain used where
      "es = used @ rest" "outBuf c' = outBuf c @ chunk @ buffered used"
      "stdin c' = stdin c" "Password c' = Password c" by auto
    with miss have "?ev # es = (?ev # used) @ rest
      \<and> outBuf c' = outBuf c @ buffered (?ev # used)
      \<and> stdin c' = stdin c \<and> Password c' = Password c" by simp
    then show ?thesis by blast
  qed
qed

lemma Client_update_swap: "c\<lparr>stdin := w, outBuf := b\<rparr> = c\<lparr>outBuf := b, stdin := w\<rparr>"
  by simp

lemma waitLoop_stdin:
  "waitLoop tmp es (c\<lparr>stdin := w\<rparr>)
     = map_option (\<lambda>(r, c', rest). (r, c'\<lparr>stdin := w\<rparr>, rest)) (waitLoop tmp es c)"
proof (induction tmp es c rule: waitLoop.induct)
  case (4 tmp chunk err es c)
  let ?hit = "Match promptRegex (ReplaceAll ansiEscape (tmp @ chunk))"
  consider (fatal) e where "readFailure err = Some e"
    | (empty) "readFailure err = None" "chunk = []"
    | (hit) "readFailure err = None" "chunk \<noteq> []" ?hit
    | (miss) "readFailure err = None" "chunk \<noteq> []" "\<not> ?hit"
    by (cases "readFailure err") auto
  then show ?case
  proof cases
    case fatal
    then show ?thesis by simp
  next
    case empty
    with "4.IH"(2) show ?thesis by simp
  next
    case hit
    then show ?thesis by (simp add: Let_def)
  next
    case miss
    from "4.IH"(1) [OF miss(1) miss(2) refl refl refl miss(3)] miss show ?thesis
      by (simp add: Let_def Client_update_swap)
  qed
qed simp_all

lemma waitForPrompt_error_stdin:
  "(\<exists>c' rest. waitForPrompt es (c\<lparr>stdin := w\<rparr>) = Some (r, c', rest))
     \<longleftrightarrow> (\<exists>c' rest. waitForPrompt es c = Some (r, c', rest))"
  unfolding waitForPrompt_def waitLoop_stdin by (cases "waitLoop [] es c") auto

lemma RunCommand_Inl:
  "RunCommand c es cmd = Some (Inl e, c', rest) \<longleftrightarrow>
     waitForPrompt es (c\<lparr>stdin := fst (Fprint (stdin c) (cmd @ [CR, LF]))\<rparr>) = Some (Some e, c', rest)"
  by (auto simp: RunCommand_def Let_def split: prod.splits option.splits)

lemma RunCommand_Inr:
  "RunCommand c es cmd = Some (Inr out, c', rest) \<longleftrightarrow>
     (\<exists>c2. waitForPrompt es (c\<lparr>stdin := fst (Fprint (stdin c) (cmd @ [CR, LF]))\<rparr>) = Some (None, c2, rest)
        \<and> out = removeCR (ReplaceAll ansiEscape (outBuf c2)) \<and> c' = c2\<lparr>outBuf := []\<rparr>)"
  by (auto simp: RunCommand_def Let_def split: prod.splits option.splits)

lemma RunCommand_output:
  assumes "RunCommand c es cmd = Some (Inr out, c', rest)"
  shows "\<exists>used. es = used @ rest
           \<and> out = removeCR (ReplaceAll ansiEscape (outBuf c @ buffered used)) \<and> outBuf c' = []"
proof -
  let ?c1 = "c\<lparr>stdin := fst (Fprint (stdin c) (cmd @ [CR, LF]))\<rparr>"
  from assms obtain c2 where w: "waitForPrompt es ?c1 = Some (None, c2, rest)"
    and out: "out = removeCR (ReplaceAll ansiEscape (outBuf c2))" and c': "c' = c2\<lparr>outBuf := []\<rparr>"
    unfolding RunCommand_Inr by blast
  from w have "waitLoop [] es ?c1 = Some (None, c2, rest)" by (simp add: waitForPrompt_def)
  from waitLoop_inv [OF this] obtain used where "es = used @ rest"
    "outBuf c2 = outBuf c @ buffered used" by auto
  with out c' show ?thesis by auto
qed

lemma RunCommand_failure:
  assumes "RunCommand c es cmd = Some (Inl e, c', rest)"
  shows "\<exists>used. es = used @ rest \<and> outBuf c' = outBuf c @ buffered used"
proof -
  let ?c1 = "c\<lparr>stdin := fst (Fprint (stdin c) (cmd @ [CR, LF]))\<rparr>"
  from assms have "waitLoop [] es ?c1 = Some (Some e, c', rest)"
    unfolding RunCommand_Inl by (simp add: waitForPrompt_def)
  from waitLoop_inv [OF this] show ?thesis by auto
qed

lemma removeCR_no_CR: "CR \<notin> set (removeCR s)"
  by (simp add: removeCR_def)

lemma removeCR_append: "removeCR (a @ b) = removeCR a @ removeCR b"
  by (simp add: removeCR_def)

lemma removeCR_subset: "set (removeCR s) \<subseteq> set s"
  by (auto simp: removeCR_def)

text \<open>
  Claim C4, as amended. \<^verbatim>\<open>RunCommand\<close> drops what \<^verbatim>\<open>fmt.Fprint\<close> returns: it returns
  an error exactly when its read cycle does (the context is done, the timer has
  fired, or a read has failed), whether the command could be written or not. With
  a writer that fails, a read cycle that meets the prompt makes the call succeed.
\<close>

theorem RunCommand_error_iff_read_cycle:
  "(\<forall>e. (\<exists>c' rest. RunCommand c es cmd = Some (Inl e, c', rest))
          \<longleftrightarrow> (\<exists>c' rest. waitForPrompt es c = Some (Some e, c', rest)))
   \<and> (failing (stdin c) \<and> (\<exists>c' rest. waitForPrompt es c = Some (None, c', rest))
        \<longrightarrow> (\<exists>out c' rest. RunCommand c es cmd = Some (Inr out, c', rest)))"
proof (intro conjI allI impI)
  fix e
  show "(\<exists>c' rest. RunCommand c es cmd = Some (Inl e, c', rest))
          \<longleftrightarrow> (\<exists>c' rest. waitForPrompt es c = Some (Some e, c', rest))"
    unfolding RunCommand_Inl by (rule waitForPrompt_error_stdin)
next
  assume "failing (stdin c) \<and> (\<exists>c' rest. waitForPrompt es c = Some (None, c', rest))"
  then have "\<exists>c' rest. waitForPrompt es c = Some (None, c', rest)" by simp
  then have "\<exists>c2 rest. waitForPrompt es (c\<lparr>stdin := fst (Fprint (stdin c) (cmd @ [CR, LF]))\<rparr>)
       = Some (None, c2, rest)"
    by (simp only: waitForPrompt_error_stdin)
  then show "\<exists>out c' rest. RunCommand c es cmd = Some (Inr out, c', rest)"
    unfolding RunCommand_Inr by blast
qed

theorem RunCommand_error_iff_read_cycle_witness:
  "failing (stdin \<lparr>Password = ''pw'', stdin = \<lparr>failing = True, written = []\<rparr>, outBuf = []\<rparr>)
   \<and> (\<exists>c' rest. waitForPrompt [Read ''SG2210XMP-M2#'' ErrNil]
          \<lparr>Password = ''pw'', stdin = \<lparr>failing = True, written = []\<rparr>, outBuf = []\<rparr>
          = Some (None, c', rest))
   \<and> (\<exists>out c' rest. RunCommand
          \<lparr>Password = ''pw'', stdin = \<lparr>failing = True, written = []\<rparr>, outBuf = []\<rparr>
          [Read ''SG2210XMP-M2#'' ErrNil] ''show version'' = Some (Inr out, c', rest))
   \<and> (\<exists>c' rest. waitForPrompt [TimerFired]
          \<lparr>Password = ''pw'', stdin = \<lparr>failing = True, written = []\<rparr>, outBuf = []\<rparr>
          = Some (Some PromptTimeout, c', rest))
   \<and> (\<exists>c' rest. RunCommand
          \<lparr>Password = ''pw'', stdin = \<lparr>failing = True, written = []\<rparr>, outBuf = []\<rparr>
          [TimerFired] ''show version'' = Some (Inl PromptTimeout, c', rest))"
proof -
  let ?c = "\<lparr>Password = ''pw'', stdin = \<lparr>failing = True, written = []\<rparr>, outBuf = []\<rparr>"
  have f: "failing (stdin ?c)" by simp
  have ok: "\<exists>c' rest. waitForPrompt [Read ''SG2210XMP-M2#'' ErrNil] ?c = Some (None, c', rest)"
    by (simp add: waitForPrompt_def readFailure_def cls_defs re_defs)
  have to: "\<exists>c' rest. waitForPrompt [TimerFired] ?c = Some (Some PromptTimeout, c', rest)"
    by (simp add: waitForPrompt_def)
  from f ok
    RunCommand_error_iff_read_cycle [of ?c "[Read ''SG2210XMP-M2#'' ErrNil]" "''show version''"]
  have 1: "\<exists>out c' rest. RunCommand ?c [Read ''SG2210XMP-M2#'' ErrNil] ''show version''
             = Some (Inr out, c', rest)" by blast
  from to RunCommand_error_iff_read_cycle [of ?c "[TimerFired]" "''show version''"]
  have 2: "\<exists>c' rest. RunCommand ?c [TimerFired] ''show version''
             = Some (Inl PromptTimeout, c', rest)" by blast
  from f ok to 1 2 show ?thesis by blast
qed

text \<open>
  The write fails, the prompt arrives all the same, and \<^verbatim>\<open>RunCommand\<close> returns the
  text with a \<^verbatim>\<open>nil\<close> error.
\<close>

theorem RunCommand_write_failure_counterexample:
  "failing (stdin \<lparr>Password = ''pw'', stdin = \<lparr>failing = True, written = []\<rparr>, outBuf = []\<rparr>)
   \<and> Fprint \<lparr>failing = True, written = []\<rparr> (''show version'' @ [CR, LF])
       = (\<lparr>failing = True, written = []\<rparr>, Some WriteError)
   \<and> RunCommand \<lparr>Password = ''pw'', stdin = \<lparr>failing = True, written = []\<rparr>, outBuf = []\<rparr>
       [Read ''SG2210XMP-M2#'' ErrNil] ''show version''
       = Some (Inr ''SG2210XMP-M2#'',
           \<lparr>Password = ''pw'', stdin = \<lparr>failing = True, written = []\<rparr>, outBuf = []\<rparr>, [])"
  by (simp add: RunCommand_def waitForPrompt_def Fprint_def removeCR_def readFailure_def
      cls_defs re_defs)

text \<open>
  Claim C5, as amended. What a successful \<^verbatim>\<open>RunCommand\<close> returns is the buffer,
  stripped and then freed of carriage returns. It holds no carriage return. It
  holds no escape sequence when every ESC byte of the buffer starts a complete
  escape sequence; for other streams a sequence can be left.
\<close>

theorem RunCommand_output_normalised:
  assumes "RunCommand c es cmd = Some (Inr out, c', rest)"
  shows "\<exists>used. es = used @ rest
           \<and> out = removeCR (ReplaceAll ansiEscape (outBuf c @ buffered used))
           \<and> CR \<notin> set out
           \<and> (escComplete (outBuf c @ buffered used) \<longrightarrow> ESC \<notin> set out \<and> \<not> Match ansiEscape out)"
proof -
  from RunCommand_output [OF assms] obtain used where u: "es = used @ rest"
    "out = removeCR (ReplaceAll ansiEscape (outBuf c @ buffered used))" by blast
  have "CR \<notin> set out" using u(2) by (simp add: removeCR_no_CR)
  moreover have "ESC \<notin> set out \<and> \<not> Match ansiEscape out"
    if "escComplete (outBuf c @ buffered used)"
  proof -
    from escComplete_strip [OF that] u(2) removeCR_subset have "ESC \<notin> set out" by blast
    then show ?thesis by (simp add: no_ESC_no_match)
  qed
  ultimately show ?thesis using u by blast
qed

theorem RunCommand_output_normalised_witness:
  "RunCommand \<lparr>Password = ''pw'', stdin = \<lparr>failing = False, written = []\<rparr>, outBuf = []\<rparr>
     [Read (ESC # ''[1mup'' @ ESC # ''[0m'' @ [CR, LF] @ ''SG2210XMP-M2#'') ErrNil] ''show''
     = Some (Inr (''up'' @ [LF] @ ''SG2210XMP-M2#''),
         \<lparr>Password = ''pw'', stdin = \<lparr>failing = False, written = [''show'' @ [CR, LF]]\<rparr>,
          outBuf = []\<rparr>, [])
   \<and> escComplete (ESC # ''[1mup'' @ ESC # ''[0m'' @ [CR, LF] @ ''SG2210XMP-M2#'')
   \<and> CR \<notin> set (''up'' @ [LF] @ ''SG2210XMP-M2#'')
   \<and> ESC \<notin> set (''up'' @ [LF] @ ''SG2210XMP-M2#'')
   \<and> \<not> Match ansiEscape (''up'' @ [LF] @ ''SG2210XMP-M2#'')"
proof -
  let ?c = "\<lparr>Password = ''pw'', stdin = \<lparr>failing = False, written = []\<rparr>, outBuf = []\<rparr>"
  let ?chunk = "ESC # ''[1mup'' @ ESC # ''[0m'' @ [CR, LF] @ ''SG2210XMP-M2#''"
  let ?out = "''up'' @ [LF] @ ''SG2210XMP-M2#''"
  have run: "RunCommand ?c [Read ?chunk ErrNil] ''show''
     = Some (Inr ?out,
         \<lparr>Password = ''pw'', stdin = \<lparr>failing = False, written = [''show'' @ [CR, LF]]\<rparr>,
          outBuf = []\<rparr>, [])"
    by (simp add: RunCommand_def waitForPrompt_def Fprint_def removeCR_def readFailure_def
        cls_defs re_defs)
  have e: "escComplete ?chunk" by (simp add: cls_defs re_defs)
  from RunCommand_output_normalised [OF run] obtain used where
    u: "[Read ?chunk ErrNil] = used @ []" and cr: "CR \<notin> set ?out"
    and imp: "escComplete (outBuf ?c @ buffered used) \<longrightarrow> ESC \<notin> set ?out \<and> \<not> Match ansiEscape ?out"
    by blast
  from u have "used = [Read ?chunk ErrNil]" by simp
  then have "outBuf ?c @ buffered used = ?chunk" by (simp add: readFailure_def)
  with e imp have "ESC \<notin> set ?out \<and> \<not> Match ansiEscape ?out" by simp
  with run e cr show ?thesis by blast
qed

text \<open>
  The device sends ESC, a carriage return and \<^verbatim>\<open>[0m\<close>: nothing is stripped, the
  carriage return goes, and the text returned starts with an escape sequence.
\<close>

theorem RunCommand_output_counterexample:
  "RunCommand \<lparr>Password = ''pw'', stdin = \<lparr>failing = False, written = []\<rparr>, outBuf = []\<rparr>
     [Read ([ESC, CR] @ ''[0mSG2210XMP-M2#'') ErrNil] ''show''
     = Some (Inr (ESC # ''[0mSG2210XMP-M2#''),
         \<lparr>Password = ''pw'', stdin = \<lparr>failing = False, written = [''show'' @ [CR, LF]]\<rparr>,
          outBuf = []\<rparr>, [])
   \<and> Match ansiEscape (ESC # ''[0mSG2210XMP-M2#'')"
  by (simp add: RunCommand_def waitForPrompt_def Fprint_def removeCR_def readFailure_def
      cls_defs re_defs)

text \<open>
  Claim C9. A call of \<^verbatim>\<open>RunCommand\<close> that returns an error leaves in \<^verbatim>\<open>outBuf\<close> the
  bytes that its reads have brought. The next call that succeeds returns the
  normal form of these bytes followed by its own; when the bytes left hold no ESC,
  this is their text without carriage returns, in front of the normal form of the
  bytes of the second call. The buffer is empty only after the success.
\<close>

theorem RunCommand_keeps_stale_bytes:
  assumes fail: "RunCommand c es1 cmd1 = Some (Inl e, c1, rest1)"
    and ok: "RunCommand c1 es2 cmd2 = Some (Inr out, c2, rest2)"
  shows "\<exists>used1 used2. es1 = used1 @ rest1 \<and> es2 = used2 @ rest2
           \<and> outBuf c1 = outBuf c @ buffered used1
           \<and> out = removeCR (ReplaceAll ansiEscape (outBuf c1 @ buffered used2))
           \<and> (ESC \<notin> set (outBuf c1) \<longrightarrow>
                out = removeCR (outBuf c1) @ removeCR (ReplaceAll ansiEscape (buffered used2)))
           \<and> outBuf c2 = []"
proof -
  from RunCommand_failure [OF fail] obtain used1 where
    1: "es1 = used1 @ rest1" "outBuf c1 = outBuf c @ buffered used1" by blast
  from RunCommand_output [OF ok] obtain used2 where
    2: "es2 = used2 @ rest2" "out = removeCR (ReplaceAll ansiEscape (outBuf c1 @ buffered used2))"
       "outBuf c2 = []" by blast
  have "out = removeCR (outBuf c1) @ removeCR (ReplaceAll ansiEscape (buffered used2))"
    if "ESC \<notin> set (outBuf c1)"
    using 2(2) strip_append_no_ESC [OF that] by (simp add: removeCR_append)
  with 1 2 show ?thesis by blast
qed

theorem RunCommand_keeps_stale_bytes_witness:
  "RunCommand \<lparr>Password = ''pw'', stdin = \<lparr>failing = False, written = []\<rparr>, outBuf = []\<rparr>
     [Read ''Gi1/0/1 up'' ErrNil, TimerFired] ''show a''
     = Some (Inl PromptTimeout,
         \<lparr>Password = ''pw'', stdin = \<lparr>failing = False, written = [''show a'' @ [CR, LF]]\<rparr>,
          outBuf = ''Gi1/0/1 up''\<rparr>, [])
   \<and> RunCommand
        \<lparr>Password = ''pw'', stdin = \<lparr>failing = False, written = [''show a'' @ [CR, LF]]\<rparr>,
         outBuf = ''Gi1/0/1 up''\<rparr>
        [Read ([CR, LF] @ ''SG2210XMP-M2#'') ErrNil] ''show b''
     = Some (Inr (''Gi1/0/1 up'' @ [LF] @ ''SG2210XMP-M2#''),
         \<lparr>Password = ''pw'',
          stdin = \<lparr>failing = False, written = [''show a'' @ [CR, LF], ''show b'' @ [CR, LF]]\<rparr>,
          outBuf = []\<rparr>, [])
   \<and> (\<exists>used2. [Read ([CR, LF] @ ''SG2210XMP-M2#'') ErrNil] = used2 @ []
         \<and> ''Gi1/0/1 up'' @ [LF] @ ''SG2210XMP-M2#''
             = removeCR ''Gi1/0/1 up'' @ removeCR (ReplaceAll ansiEscape (buffered used2)))"
proof -
  let ?c = "\<lparr>Password = ''pw'', stdin = \<lparr>failing = False, written = []\<rparr>, outBuf = []\<rparr>"
  let ?c1 = "\<lparr>Password = ''pw'', stdin = \<lparr>failing = False, written = [''show a'' @ [CR, LF]]\<rparr>,
          outBuf = ''Gi1/0/1 up''\<rparr>"
  let ?c2 = "\<lparr>Password = ''pw'',
          stdin = \<lparr>failing = False, written = [''show a'' @ [CR, LF], ''show b'' @ [CR, LF]]\<rparr>,
          outBuf = []\<rparr>"
  let ?out = "''Gi1/0/1 up'' @ [LF] @ ''SG2210XMP-M2#''"
  have run1: "RunCommand ?c [Read ''Gi1/0/1 up'' ErrNil, TimerFired] ''show a''
     = Some (Inl PromptTimeout, ?c1, [])"
    by (simp add: RunCommand_def waitForPrompt_def Fprint_def readFailure_def cls_defs re_defs)
  have run2: "RunCommand ?c1 [Read ([CR, LF] @ ''SG2210XMP-M2#'') ErrNil] ''show b''
     = Some (Inr ?out, ?c2, [])"
    by (simp add: RunCommand_def waitForPrompt_def Fprint_def removeCR_def readFailure_def
        cls_defs re_defs)
  have noesc: "ESC \<notin> set (outBuf ?c1)" by (simp add: ESC_def)
  from RunCommand_keeps_stale_bytes [OF run1 run2] obtain used2 where
    "[Read ([CR, LF] @ ''SG2210XMP-M2#'') ErrNil] = used2 @ []"
    "ESC \<notin> set (outBuf ?c1) \<longrightarrow>
       ?out = removeCR (outBuf ?c1) @ removeCR (ReplaceAll ansiEscape (buffered used2))"
    by blast
  with noesc have "\<exists>used2. [Read ([CR, LF] @ ''SG2210XMP-M2#'') ErrNil] = used2 @ []
         \<and> ?out = removeCR ''Gi1/0/1 up'' @ removeCR (ReplaceAll ansiEscape (buffered used2))"
    by auto
  with run1 run2 show ?thesis by blast
qed

section \<open>The read cycle of the script\<close>

lemma quietFrom_append:
  "quietFrom acc (ys @ zs) = (quietFrom acc ys \<and> quietFrom (acc @ ys) zs)"
  by (induction ys arbitrary: acc) auto

lemma quiet_snoc: "quiet (cs @ [c]) = (quiet cs \<and> \<not> asks (cs @ [c]))"
  by (auto simp: quiet_def quietFrom_append)

lemma quietFrom_prefix:
  "quietFrom acc cs \<Longrightarrow> prefix p cs \<Longrightarrow> p \<noteq> [] \<Longrightarrow> \<not> asks (acc @ p)"
proof (induction cs arbitrary: acc p)
  case Nil
  then show ?case by simp
next
  case (Cons c cs)
  from Cons.prems(2,3) obtain q where p: "p = c # q" "prefix q cs"
    by (cases p) auto
  show ?case
  proof (cases "q = []")
    case True
    with p Cons.prems(1) show ?thesis by simp
  next
    case False
    from Cons.prems(1) have "quietFrom (acc @ [c]) cs" by simp
    from Cons.IH [OF this p(2) False] p show ?thesis by simp
  qed
qed

lemma quiet_prefix: "quiet cs \<Longrightarrow> prefix p cs \<Longrightarrow> p \<noteq> [] \<Longrightarrow> \<not> asks p"
  using quietFrom_prefix [of "[]" cs p] by (simp add: quiet_def)

lemma firstAsk_minimal:
  assumes "firstAsk seg" "strict_prefix p seg" "p \<noteq> []"
  shows "\<not> asks p"
proof -
  from assms(2) obtain zs where z: "seg = p @ zs" "zs \<noteq> []"
    by (auto simp: strict_prefix_def prefix_def)
  then have "butlast seg = p @ butlast zs" by (simp add: butlast_append)
  then have pre: "prefix p (butlast seg)" by simp
  from assms(1) have q: "quiet (butlast seg)" by (simp add: firstAsk_def)
  from quiet_prefix [OF q pre assms(3)] show ?thesis .
qed

lemma firstAsk_same:
  assumes a: "firstAsk s" and b: "firstAsk t" and eq: "s @ ys = t @ zs"
  shows "s = t"
proof (rule ccontr)
  assume ne: "s \<noteq> t"
  from eq have "prefix s t \<or> prefix t s"
    by (metis prefix_same_cases prefixI)
  with ne have "strict_prefix s t \<or> strict_prefix t s" by (auto simp: strict_prefix_def)
  then show False
  proof
    assume "strict_prefix s t"
    from firstAsk_minimal [OF b this] a show False by (simp add: firstAsk_def)
  next
    assume "strict_prefix t s"
    from firstAsk_minimal [OF a this] b show False by (simp add: firstAsk_def)
  qed
qed

lemma segmentation_unique:
  assumes "list_all firstAsk segs" "quiet tail" "list_all firstAsk segs'" "quiet tail'"
    and "concat segs @ tail = concat segs' @ tail'"
  shows "segs = segs' \<and> tail = tail'"
  using assms
proof (induction segs arbitrary: segs')
  case Nil
  show ?case
  proof (cases segs')
    case Nil
    with Nil.prems show ?thesis by simp
  next
    case (Cons t r)
    with Nil.prems have "firstAsk t" "prefix t tail" by auto
    then have "t \<noteq> []" "asks t" "prefix t tail" by (simp_all add: firstAsk_def)
    with quiet_prefix [OF Nil.prems(2)] show ?thesis by blast
  qed
next
  case (Cons s r)
  show ?case
  proof (cases segs')
    case Nil
    with Cons.prems have "firstAsk s" "prefix s tail'" by auto
    then have "s \<noteq> []" "asks s" "prefix s tail'" by (simp_all add: firstAsk_def)
    with quiet_prefix [OF Cons.prems(4)] show ?thesis by blast
  next
    case c: (Cons t r')
    with Cons.prems have fs: "firstAsk s" and ft: "firstAsk t"
      and eq: "s @ (concat r @ tail) = t @ (concat r' @ tail')" by auto
    from firstAsk_same [OF fs ft eq] have st: "s = t" .
    with eq have "concat r @ tail = concat r' @ tail'" by simp
    from Cons.IH [OF _ Cons.prems(2) _ Cons.prems(4) this] Cons.prems(1,3) c
    have "r = r' \<and> tail = tail'" by simp
    with st c show ?thesis by simp
  qed
qed

lemma script_waitLoop_segments:
  assumes "quiet cur"
    and "script_waitLoop pw (concat cur) es (w, fo) = Some (w', fo', rest)"
  shows "\<exists>used segs tail. es = used @ rest
           \<and> cur @ dataChunks used = concat segs @ tail
           \<and> list_all firstAsk segs \<and> quiet tail
           \<and> written w' = written w @ (if failing w then [] else replicate (length segs) (pw @ [LF]))"
  using assms
proof (induction es arbitrary: cur w fo)
  case Nil
  then show ?case by simp
next
  case (Cons ev es)
  let ?goal = "\<lambda>used segs tail. ev # es = used @ rest
           \<and> cur @ dataChunks used = concat segs @ tail
           \<and> list_all firstAsk segs \<and> quiet tail
           \<and> written w' = written w @ (if failing w then [] else replicate (length segs) (pw @ [LF]))"
  show ?case
  proof (cases ev)
    case CtxDone
    with Cons.prems have "script_waitLoop pw (concat cur) es (w, fo) = Some (w', fo', rest)"
      by simp
    from Cons.IH [OF Cons.prems(1) this] obtain used segs tail where
      "es = used @ rest" "cur @ dataChunks used = concat segs @ tail"
      "list_all firstAsk segs" "quiet tail"
      "written w' = written w @ (if failing w then [] else replicate (length segs) (pw @ [LF]))"
      by blast
    with CtxDone have "?goal (ev # used) segs tail" by simp
    then show ?thesis by blast
  next
    case TimerFired
    with Cons.prems have "?goal [ev] [] cur" by auto
    then show ?thesis by blast
  next
    case (Read raw err)
    let ?asks = "Contains (ReplaceAll ansiEscape (concat cur @ raw)) ''Password:''"
    let ?hit = "Match script_promptRegex (ReplaceAll ansiEscape (concat cur @ raw))"
    have a: "asks (cur @ [raw]) = ?asks" by (simp add: asks_def)
    consider (fatal) e where "readFailure err = Some e"
      | (empty) "readFailure err = None" "raw = []"
      | (ask) "readFailure err = None" "raw \<noteq> []" ?asks
      | (hit) "readFailure err = None" "raw \<noteq> []" "\<not> ?asks" ?hit
      | (miss) "readFailure err = None" "raw \<noteq> []" "\<not> ?asks" "\<not> ?hit"
      by (cases "readFailure err") auto
    then show ?thesis
    proof cases
      case fatal
      with Read Cons.prems have "?goal [ev] [] cur" by auto
      then show ?thesis by blast
    next
      case empty
      with Read Cons.prems have "script_waitLoop pw (concat cur) es (w, fo) = Some (w', fo', rest)"
        by simp
      from Cons.IH [OF Cons.prems(1) this] obtain used segs tail where
        "es = used @ rest" "cur @ dataChunks used = concat segs @ tail"
        "list_all firstAsk segs" "quiet tail"
        "written w' = written w @ (if failing w then [] else replicate (length segs) (pw @ [LF]))"
        by blast
      with Read empty have "?goal (ev # used) segs tail" by simp
      then show ?thesis by blast
    next
      case ask
      let ?w1 = "fst (Fprint w (pw @ [LF]))"
      from ask Read Cons.prems(2) have run:
        "script_waitLoop pw (concat []) es (?w1, fo @ raw) = Some (w', fo', rest)"
        by (simp add: Let_def)
      have q0: "quiet []" by (simp add: quiet_def)
      from Cons.IH [OF q0 run] obtain used segs tail where u:
        "es = used @ rest" "dataChunks used = concat segs @ tail"
        "list_all firstAsk segs" "quiet tail"
        "written w' = written ?w1 @ (if failing ?w1 then [] else replicate (length segs) (pw @ [LF]))"
        by auto
      have fa: "firstAsk (cur @ [raw])"
        using ask(3) a Cons.prems(1) by (simp add: firstAsk_def)
      have wr: "written w' = written w
          @ (if failing w then [] else replicate (length ((cur @ [raw]) # segs)) (pw @ [LF]))"
        using u(5) by (simp add: Fprint_def replicate_append_same)
      from Read ask u fa wr have "?goal (ev # used) ((cur @ [raw]) # segs) tail" by simp
      then show ?thesis by blast
    next
      case hit
      with Read Cons.prems(2) have "w' = w" "rest = es" by (simp_all add: Let_def)
      moreover have "quiet (cur @ [raw])"
        using hit(3) a Cons.prems(1) by (simp add: quiet_snoc)
      ultimately have "?goal [ev] [] (cur @ [raw])" using Read hit by simp
      then show ?thesis by blast
    next
      case miss
      with Read Cons.prems(2) have run:
        "script_waitLoop pw (concat (cur @ [raw])) es (w, fo @ raw) = Some (w', fo', rest)"
        by (simp add: Let_def)
      have q: "quiet (cur @ [raw])"
        using miss(3) a Cons.prems(1) by (simp add: quiet_snoc)
      from Cons.IH [OF q run] obtain used segs tail where
        "es = used @ rest" "(cur @ [raw]) @ dataChunks used = concat segs @ tail"
        "list_all firstAsk segs" "quiet tail"
        "written w' = written w @ (if failing w then [] else replicate (length segs) (pw @ [LF]))"
        by blast
      with Read miss have "?goal (ev # used) segs tail" by simp
      then show ?thesis by blast
    qed
  qed
qed

text \<open>
  Claim C1, as amended. The read cycle of the client never writes to the
  transport. The read cycle of the script writes nothing but the password and a
  line feed, once for each request: the chunks read in the cycle fall, in one way
  only, into runs that each ask with their last chunk and not before (a run starts
  at the start of the cycle or behind the chunk that ended the run before it, the
  bytes before it being forgotten) and a rest of which no start asks; the password
  is written as many times as there are such runs. So it is not written when no
  start of the chunks asks, and it is written once, however often \<^verbatim>\<open>Password:\<close>
  stands in the bytes that ask, when the chunks behind the first request do not ask
  again. It is written a second time only when the text arrives again in the
  chunks behind a request.
\<close>

theorem credential_once_per_request:
  "(\<forall>r c' rest. waitForPrompt es c = Some (r, c', rest) \<longrightarrow> stdin c' = stdin c)
   \<and> (\<forall>w' fo' rest. script_waitForPrompt w es pw fo = Some (w', fo', rest) \<longrightarrow>
        (\<exists>used. es = used @ rest
           \<and> (\<exists>segs tail. dataChunks used = concat segs @ tail
                  \<and> list_all firstAsk segs \<and> quiet tail)
           \<and> (\<forall>segs tail. dataChunks used = concat segs @ tail
                  \<and> list_all firstAsk segs \<and> quiet tail
                \<longrightarrow> written w' = written w
                      @ (if failing w then [] else replicate (length segs) (pw @ [LF])))
           \<and> (quiet (dataChunks used) \<longrightarrow> written w' = written w)
           \<and> (\<forall>seg tail. dataChunks used = seg @ tail \<and> firstAsk seg \<and> quiet tail
                \<longrightarrow> written w' = written w @ (if failing w then [] else [pw @ [LF]]))))"
proof (intro conjI allI impI)
  fix r c' rest
  assume "waitForPrompt es c = Some (r, c', rest)"
  then have "waitLoop [] es c = Some (r, c', rest)" by (simp add: waitForPrompt_def)
  from waitLoop_inv [OF this] show "stdin c' = stdin c" by blast
next
  fix w' fo' rest
  assume "script_waitForPrompt w es pw fo = Some (w', fo', rest)"
  then have run: "script_waitLoop pw (concat []) es (w, fo) = Some (w', fo', rest)"
    by (simp add: script_waitForPrompt_def)
  have q0: "quiet []" by (simp add: quiet_def)
  from script_waitLoop_segments [OF q0 run] obtain used segs tail where
    u: "es = used @ rest" and d: "dataChunks used = concat segs @ tail"
    and f: "list_all firstAsk segs" and q: "quiet tail"
    and wr: "written w' = written w
        @ (if failing w then [] else replicate (length segs) (pw @ [LF]))"
    by auto
  have uniq: "written w' = written w
        @ (if failing w then [] else replicate (length segs') (pw @ [LF]))"
    if "dataChunks used = concat segs' @ tail'" "list_all firstAsk segs'" "quiet tail'"
    for segs' tail'
  proof -
    from that(1) d have "concat segs @ tail = concat segs' @ tail'" by simp
    from segmentation_unique [OF f q that(2) that(3) this] wr show ?thesis by simp
  qed
  have none: "written w' = written w" if "quiet (dataChunks used)"
    using uniq [of "[]" "dataChunks used"] that by simp
  have one: "written w' = written w @ (if failing w then [] else [pw @ [LF]])"
    if "dataChunks used = seg @ tail'" "firstAsk seg" "quiet tail'" for seg tail'
    using uniq [of "[seg]" tail'] that by simp
  from u d f q uniq none one
  show "\<exists>used. es = used @ rest
           \<and> (\<exists>segs tail. dataChunks used = concat segs @ tail
                  \<and> list_all firstAsk segs \<and> quiet tail)
           \<and> (\<forall>segs tail. dataChunks used = concat segs @ tail
                  \<and> list_all firstAsk segs \<and> quiet tail
                \<longrightarrow> written w' = written w
                      @ (if failing w then [] else replicate (length segs) (pw @ [LF])))
           \<and> (quiet (dataChunks used) \<longrightarrow> written w' = written w)
           \<and> (\<forall>seg tail. dataChunks used = seg @ tail \<and> firstAsk seg \<and> quiet tail
                \<longrightarrow> written w' = written w @ (if failing w then [] else [pw @ [LF]]))"
    by blast
qed

theorem credential_once_per_request_witness:
  "script_waitForPrompt \<lparr>failing = False, written = []\<rparr>
     [Read ''Password:Password:'' ErrNil, Read ''x'' ErrNil, Read ''y'' ErrNil,
      Read ''SG2210XMP-M2#'' ErrNil] ''pw'' []
     = Some (\<lparr>failing = False, written = [''pw'' @ [LF]]\<rparr>,
         ''Password:Password:xySG2210XMP-M2#'', [])
   \<and> firstAsk [''Password:Password:'']
   \<and> quiet [''x'', ''y'', ''SG2210XMP-M2#'']
   \<and> written \<lparr>failing = False, written = [''pw'' @ [LF]]\<rparr>
       = written \<lparr>failing = False, written = []\<rparr> @ [''pw'' @ [LF]]
   \<and> script_waitForPrompt \<lparr>failing = False, written = []\<rparr>
        [Read ''Pass'' ErrNil, Read ''word:'' ErrNil, Read ''Pass'' ErrNil, Read ''word:'' ErrEOF,
         TimerFired] ''pw'' []
     = Some (\<lparr>failing = False, written = [''pw'' @ [LF], ''pw'' @ [LF]]\<rparr>,
         ''Password:Password:'', [])
   \<and> list_all firstAsk [[''Pass'', ''word:''], [''Pass'', ''word:'']]
   \<and> waitForPrompt [Read ''Password:'' ErrNil, TimerFired]
        \<lparr>Password = ''pw'', stdin = \<lparr>failing = False, written = []\<rparr>, outBuf = []\<rparr>
     = Some (Some PromptTimeout,
         \<lparr>Password = ''pw'', stdin = \<lparr>failing = False, written = []\<rparr>, outBuf = ''Password:''\<rparr>, [])"
proof -
  let ?es = "[Read ''Password:Password:'' ErrNil, Read ''x'' ErrNil, Read ''y'' ErrNil,
      Read ''SG2210XMP-M2#'' ErrNil]"
  let ?es2 = "[Read ''Pass'' ErrNil, Read ''word:'' ErrNil, Read ''Pass'' ErrNil,
      Read ''word:'' ErrEOF, TimerFired]"
  let ?w = "\<lparr>failing = False, written = []\<rparr>"
  let ?c = "\<lparr>Password = ''pw'', stdin = ?w, outBuf = []\<rparr>"
  have fa: "firstAsk [''Password:Password:'']"
    by (simp add: firstAsk_def quiet_def asks_def cls_defs re_defs)
  have qt: "quiet [''x'', ''y'', ''SG2210XMP-M2#'']"
    by (simp add: quiet_def asks_def cls_defs re_defs)
  have fa2: "list_all firstAsk [[''Pass'', ''word:''], [''Pass'', ''word:'']]"
    by (simp add: firstAsk_def quiet_def asks_def cls_defs re_defs)
  obtain w1 fo1 where run: "script_waitForPrompt ?w ?es ''pw'' [] = Some (w1, fo1, [])"
    by (simp add: script_waitForPrompt_def Fprint_def readFailure_def cls_defs re_defs)
  have v: "script_waitForPrompt ?w ?es ''pw'' []
     = Some (\<lparr>failing = False, written = [''pw'' @ [LF]]\<rparr>, ''Password:Password:xySG2210XMP-M2#'', [])"
    by (simp add: script_waitForPrompt_def Fprint_def readFailure_def cls_defs re_defs)
  have v2: "script_waitForPrompt ?w ?es2 ''pw'' []
     = Some (\<lparr>failing = False, written = [''pw'' @ [LF], ''pw'' @ [LF]]\<rparr>, ''Password:Password:'', [])"
    by (simp add: script_waitForPrompt_def Fprint_def readFailure_def cls_defs re_defs)
  have cl: "waitForPrompt [Read ''Password:'' ErrNil, TimerFired] ?c
     = Some (Some PromptTimeout, ?c\<lparr>outBuf := ''Password:''\<rparr>, [])"
    by (simp add: waitForPrompt_def readFailure_def cls_defs re_defs)
  from run credential_once_per_request [of ?es ?c ?w "''pw''" "[]"] obtain used where
    u: "?es = used @ []"
    and one: "\<forall>seg tail. dataChunks used = seg @ tail \<and> firstAsk seg \<and> quiet tail
                \<longrightarrow> written w1 = written ?w @ (if failing ?w then [] else [''pw'' @ [LF]])"
    by blast
  from u have "used = ?es" by simp
  then have "dataChunks used = [''Password:Password:''] @ [''x'', ''y'', ''SG2210XMP-M2#'']"
    by (simp add: readFailure_def)
  with one fa qt have "written w1 = written ?w @ [''pw'' @ [LF]]" by auto
  with run v have 1: "written \<lparr>failing = False, written = [''pw'' @ [LF]]\<rparr>
       = written ?w @ [''pw'' @ [LF]]" by simp
  from v fa qt 1 v2 fa2 cl show ?thesis by simp
qed

text \<open>
  The device asks for the password a second time, in a later chunk of the same
  cycle: the password is written twice.
\<close>

theorem credential_once_counterexample:
  "script_waitForPrompt \<lparr>failing = False, written = []\<rparr>
     [Read ''Password:'' ErrNil, Read ''Password:'' ErrNil, Read ''SG2210XMP-M2#'' ErrNil] ''pw'' []
     = Some (\<lparr>failing = False, written = [''pw'' @ [LF], ''pw'' @ [LF]]\<rparr>,
         ''Password:Password:SG2210XMP-M2#'', [])"
  by (simp add: script_waitForPrompt_def Fprint_def readFailure_def cls_defs re_defs)

section \<open>The power table\<close>

lemma poeLoop_append:
  "poeLoop pf (pre @ post) m =
     (case poeLoop pf pre m of Inl e \<Rightarrow> Inl e | Inr m' \<Rightarrow> poeLoop pf post m')"
  by (induction pre arbitrary: m) (auto split: sum.splits)

lemma poeLine_skip:
  "\<not> prefix ''Tw'' (TrimSpace l) \<or> length (Fields (TrimSpace l)) < 6 \<Longrightarrow> poeLine pf l m = Inr m"
  by (auto simp: poeLine_def Let_def)

lemma poeLine_fail:
  assumes "prefix ''Tw'' (TrimSpace l)" "6 \<le> length (Fields (TrimSpace l))"
    and "pf (Fields (TrimSpace l) ! 1) = None \<or> (\<exists>ne. Atoi (Fields (TrimSpace l) ! 2) = Inl ne)
         \<or> pf (Fields (TrimSpace l) ! 3) = None"
  shows "poeLine pf l m = Inl (PoEParseError (TrimSpace l))"
  using assms by (auto simp: poeLine_def Let_def split: option.splits sum.splits)

lemma poeLine_ok:
  assumes "prefix ''Tw'' (TrimSpace l)" "6 \<le> length (Fields (TrimSpace l))"
    and "pf (Fields (TrimSpace l) ! 1) = Some p" "Atoi (Fields (TrimSpace l) ! 2) = Inr i"
    and "pf (Fields (TrimSpace l) ! 3) = Some v"
  shows "poeLine pf l m = Inr (m(Fields (TrimSpace l) ! 0 \<mapsto>
           \<lparr>PowerWatts = p, CurrentMA = i, VoltageV = v,
            PDClass = Join (take (length (Fields (TrimSpace l)) - 1 - 4) (drop 4 (Fields (TrimSpace l)))) '' '',
            Status = Fields (TrimSpace l) ! (length (Fields (TrimSpace l)) - 1)\<rparr>))"
  using assms by (simp add: poeLine_def Let_def)

lemma poeLine_other_key:
  assumes "poeLine pf l m = Inr m'"
    and "prefix ''Tw'' (TrimSpace l) \<and> 6 \<le> length (Fields (TrimSpace l))
           \<longrightarrow> Fields (TrimSpace l) ! 0 \<noteq> k"
  shows "m' k = m k"
  using assms by (auto simp: poeLine_def Let_def split: if_splits option.splits sum.splits)

lemma poeLoop_other_key:
  assumes "poeLoop pf ls m = Inr m'"
    and "\<forall>l\<in>set ls. prefix ''Tw'' (TrimSpace l) \<and> 6 \<le> length (Fields (TrimSpace l))
           \<longrightarrow> Fields (TrimSpace l) ! 0 \<noteq> k"
  shows "m' k = m k"
  using assms
proof (induction ls arbitrary: m)
  case Nil
  then show ?case by simp
next
  case (Cons l ls)
  from Cons.prems(1) obtain m1 where 1: "poeLine pf l m = Inr m1" and 2: "poeLoop pf ls m1 = Inr m'"
    by (auto split: sum.splits)
  from poeLine_other_key [OF 1] Cons.prems(2) have "m1 k = m k" by simp
  moreover from Cons.IH [OF 2] Cons.prems(2) have "m' k = m1 k" by simp
  ultimately show ?case by simp
qed

lemma Fields_example:
  "Fields ''Tw1/0/1 4.2 84 52.0 Class1 ON'' = [''Tw1/0/1'', ''4.2'', ''84'', ''52.0'', ''Class1'', ''ON'']"
  by (simp add: cls_defs)

lemma TrimSpace_example:
  "TrimSpace ''Tw1/0/1 4.2 84 52.0 Class1 ON'' = ''Tw1/0/1 4.2 84 52.0 Class1 ON''"
  by (simp add: TrimSpace_def cls_defs)

lemma Atoi_84: "Atoi ''84'' = Inr 84"
  by (simp add: Atoi_def decimal_def cls_defs)

lemma poeLine_example:
  assumes t: "TrimSpace l = ''Tw1/0/1 4.2 84 52.0 Class1 ON''"
    and p: "pf ''4.2'' = Some p" and v: "pf ''52.0'' = Some v"
  shows "poeLine pf l m = Inr (m(''Tw1/0/1'' \<mapsto>
           \<lparr>PowerWatts = p, CurrentMA = 84, VoltageV = v, PDClass = ''Class1'', Status = ''ON''\<rparr>))"
proof -
  have f: "Fields (TrimSpace l) = [''Tw1/0/1'', ''4.2'', ''84'', ''52.0'', ''Class1'', ''ON'']"
    unfolding t by (rule Fields_example)
  have 1: "prefix ''Tw'' (TrimSpace l)" unfolding t by simp
  have 2: "6 \<le> length (Fields (TrimSpace l))" unfolding f by simp
  have 3: "pf (Fields (TrimSpace l) ! 1) = Some p" unfolding f using p by simp
  have 4: "Atoi (Fields (TrimSpace l) ! 2) = Inr 84" unfolding f using Atoi_84 by simp
  have 5: "pf (Fields (TrimSpace l) ! 3) = Some v" unfolding f using v by simp
  show ?thesis unfolding poeLine_ok [OF 1 2 3 4 5] unfolding f by simp
qed

text \<open>
  Claim C7. (1) The input that is the line \<^verbatim>\<open>Tw1/0/1 4.2 84 52.0 Class1 ON\<close> yields
  the map with the one record under \<^verbatim>\<open>Tw1/0/1\<close>: the power and the voltage that
  \<^verbatim>\<open>ParseFloat\<close> reads from \<^verbatim>\<open>4.2\<close> and \<^verbatim>\<open>52.0\<close>, current 84, class \<^verbatim>\<open>Class1\<close>, status
  \<^verbatim>\<open>ON\<close>. (2) So does every input with this line among its lines (white space around
  it aside), when the call succeeds and no later row is for the same port. (3) A
  line that starts with \<^verbatim>\<open>Tw\<close> and has fewer than six fields is skipped: the result is
  that of the input without the line. (4) A line that starts with \<^verbatim>\<open>Tw\<close>, has six
  fields or more and a power field that \<^verbatim>\<open>ParseFloat\<close> rejects makes the call return
  an error.
\<close>

theorem ParsePoETable_scenarios:
  fixes ParseFloat :: "string \<Rightarrow> 'f option"
  assumes p: "ParseFloat ''4.2'' = Some p" and v: "ParseFloat ''52.0'' = Some v"
  shows "ParsePoETable ParseFloat ''Tw1/0/1 4.2 84 52.0 Class1 ON''
           = Inr [''Tw1/0/1'' \<mapsto> \<lparr>PowerWatts = p, CurrentMA = 84, VoltageV = v,
                                   PDClass = ''Class1'', Status = ''ON''\<rparr>]
    \<and> (\<forall>outp pre l post ports.
          Split outp LF = pre @ l # post
          \<and> TrimSpace l = ''Tw1/0/1 4.2 84 52.0 Class1 ON''
          \<and> (\<forall>l'\<in>set post. prefix ''Tw'' (TrimSpace l') \<and> 6 \<le> length (Fields (TrimSpace l'))
                 \<longrightarrow> Fields (TrimSpace l') ! 0 \<noteq> ''Tw1/0/1'')
          \<and> ParsePoETable ParseFloat outp = Inr ports
          \<longrightarrow> ports ''Tw1/0/1'' = Some \<lparr>PowerWatts = p, CurrentMA = 84, VoltageV = v,
                                        PDClass = ''Class1'', Status = ''ON''\<rparr>)
    \<and> (\<forall>outp pre l post.
          Split outp LF = pre @ l # post
          \<and> prefix ''Tw'' (TrimSpace l) \<and> length (Fields (TrimSpace l)) < 6
          \<longrightarrow> ParsePoETable ParseFloat outp = poeLoop ParseFloat (pre @ post) Map.empty)
    \<and> (\<forall>outp pre l post.
          Split outp LF = pre @ l # post
          \<and> prefix ''Tw'' (TrimSpace l) \<and> 6 \<le> length (Fields (TrimSpace l))
          \<and> ParseFloat (Fields (TrimSpace l) ! 1) = None
          \<longrightarrow> (\<exists>e. ParsePoETable ParseFloat outp = Inl e))"
proof (intro conjI allI impI)
  show "ParsePoETable ParseFloat ''Tw1/0/1 4.2 84 52.0 Class1 ON''
           = Inr [''Tw1/0/1'' \<mapsto> \<lparr>PowerWatts = p, CurrentMA = 84, VoltageV = v,
                                   PDClass = ''Class1'', Status = ''ON''\<rparr>]"
    using poeLine_example [OF TrimSpace_example p v]
    by (simp add: ParsePoETable_def LF_def)
next
  fix outp pre l post ports
  assume a: "Split outp LF = pre @ l # post
          \<and> TrimSpace l = ''Tw1/0/1 4.2 84 52.0 Class1 ON''
          \<and> (\<forall>l'\<in>set post. prefix ''Tw'' (TrimSpace l') \<and> 6 \<le> length (Fields (TrimSpace l'))
                 \<longrightarrow> Fields (TrimSpace l') ! 0 \<noteq> ''Tw1/0/1'')
          \<and> ParsePoETable ParseFloat outp = Inr ports"
  let ?rec = "\<lparr>PowerWatts = p, CurrentMA = 84, VoltageV = v,
                PDClass = ''Class1'', Status = ''ON''\<rparr>"
  from a have s: "Split outp LF = pre @ l # post"
    and t: "TrimSpace l = ''Tw1/0/1 4.2 84 52.0 Class1 ON''"
    and others: "\<forall>l'\<in>set post. prefix ''Tw'' (TrimSpace l') \<and> 6 \<le> length (Fields (TrimSpace l'))
                 \<longrightarrow> Fields (TrimSpace l') ! 0 \<noteq> ''Tw1/0/1''"
    and ok: "ParsePoETable ParseFloat outp = Inr ports"
    by blast+
  from ok have run: "poeLoop ParseFloat (pre @ l # post) Map.empty = Inr ports"
    unfolding ParsePoETable_def s .
  then obtain m1 where m1: "poeLoop ParseFloat pre Map.empty = Inr m1"
    and rest: "poeLoop ParseFloat (l # post) m1 = Inr ports"
    by (auto simp: poeLoop_append split: sum.splits)
  have line: "poeLine ParseFloat l m1 = Inr (m1(''Tw1/0/1'' \<mapsto> ?rec))"
    by (rule poeLine_example [OF t p v])
  with rest have "poeLoop ParseFloat post (m1(''Tw1/0/1'' \<mapsto> ?rec)) = Inr ports" by simp
  from poeLoop_other_key [OF this others]
  show "ports ''Tw1/0/1'' = Some ?rec" by simp
next
  fix outp pre l post
  assume a: "Split outp LF = pre @ l # post
          \<and> prefix ''Tw'' (TrimSpace l) \<and> length (Fields (TrimSpace l)) < 6"
  then have s: "Split outp LF = pre @ l # post"
    and short: "\<not> prefix ''Tw'' (TrimSpace l) \<or> length (Fields (TrimSpace l)) < 6"
    by blast+
  have "poeLoop ParseFloat (pre @ l # post) Map.empty = poeLoop ParseFloat (pre @ post) Map.empty"
    by (simp add: poeLoop_append poeLine_skip [OF short] split: sum.splits)
  then show "ParsePoETable ParseFloat outp = poeLoop ParseFloat (pre @ post) Map.empty"
    unfolding ParsePoETable_def s .
next
  fix outp pre l post
  assume a: "Split outp LF = pre @ l # post
          \<and> prefix ''Tw'' (TrimSpace l) \<and> 6 \<le> length (Fields (TrimSpace l))
          \<and> ParseFloat (Fields (TrimSpace l) ! 1) = None"
  then have s: "Split outp LF = pre @ l # post"
    and tw: "prefix ''Tw'' (TrimSpace l)" and six: "6 \<le> length (Fields (TrimSpace l))"
    and bad: "ParseFloat (Fields (TrimSpace l) ! 1) = None
         \<or> (\<exists>ne. Atoi (Fields (TrimSpace l) ! 2) = Inl ne)
         \<or> ParseFloat (Fields (TrimSpace l) ! 3) = None"
    by blast+
  have "\<exists>e. poeLoop ParseFloat (pre @ l # post) Map.empty = Inl e"
    by (simp add: poeLoop_append poeLine_fail [OF tw six bad] split: sum.splits)
  then show "\<exists>e. ParsePoETable ParseFloat outp = Inl e"
    unfolding ParsePoETable_def s .
qed

theorem ParsePoETable_scenarios_witness:
  "(\<lambda>s. if s = ''4.2'' then Some (21 / 5 :: rat) else if s = ''52.0'' then Some 52 else None) ''4.2''
      = Some (21 / 5)
   \<and> ParsePoETable
        (\<lambda>s. if s = ''4.2'' then Some (21 / 5 :: rat) else if s = ''52.0'' then Some 52 else None)
        ''Tw1/0/1 4.2 84 52.0 Class1 ON''
      = Inr [''Tw1/0/1'' \<mapsto> \<lparr>PowerWatts = 21 / 5, CurrentMA = 84, VoltageV = 52,
                              PDClass = ''Class1'', Status = ''ON''\<rparr>]
   \<and> (\<exists>ports. ParsePoETable
        (\<lambda>s. if s = ''4.2'' then Some (21 / 5 :: rat) else if s = ''52.0'' then Some 52 else None)
        (''Interface Power'' @ [LF] @ '' Tw1/0/1 4.2 84 52.0 Class1 ON'' @ [CR, LF] @ ''Tw1/0/2 4.2'')
          = Inr ports
        \<and> ports ''Tw1/0/1'' = Some \<lparr>PowerWatts = 21 / 5, CurrentMA = 84, VoltageV = 52,
                                    PDClass = ''Class1'', Status = ''ON''\<rparr>)
   \<and> ParsePoETable
        (\<lambda>s. if s = ''4.2'' then Some (21 / 5 :: rat) else if s = ''52.0'' then Some 52 else None)
        (''Tw1/0/2 4.2'' @ [LF] @ ''Total'')
      = poeLoop
        (\<lambda>s. if s = ''4.2'' then Some (21 / 5 :: rat) else if s = ''52.0'' then Some 52 else None)
        ([] @ [''Total'']) Map.empty
   \<and> (\<exists>e. ParsePoETable
        (\<lambda>s. if s = ''4.2'' then Some (21 / 5 :: rat) else if s = ''52.0'' then Some 52 else None)
        ''Tw1/0/1 abc 84 52.0 Class1 ON'' = Inl e)"
proof -
  let ?pf = "\<lambda>s. if s = ''4.2'' then Some (21 / 5 :: rat) else if s = ''52.0'' then Some 52 else None"
  let ?rec = "\<lparr>PowerWatts = 21 / 5 :: rat, CurrentMA = 84, VoltageV = 52,
                PDClass = ''Class1'', Status = ''ON''\<rparr>"
  have p: "?pf ''4.2'' = Some (21 / 5)" and v: "?pf ''52.0'' = Some 52" by simp_all
  note inst = ParsePoETable_scenarios [of ?pf "21 / 5" 52, OF p v]
  from inst have 1: "ParsePoETable ?pf ''Tw1/0/1 4.2 84 52.0 Class1 ON'' = Inr [''Tw1/0/1'' \<mapsto> ?rec]"
    by blast
  let ?o2 = "''Interface Power'' @ [LF] @ '' Tw1/0/1 4.2 84 52.0 Class1 ON'' @ [CR, LF] @ ''Tw1/0/2 4.2''"
  have s2: "Split ?o2 LF = [''Interface Power''] @ ('' Tw1/0/1 4.2 84 52.0 Class1 ON'' @ [CR]) # [''Tw1/0/2 4.2'']"
    by (simp add: LF_def CR_def)
  have t2: "TrimSpace ('' Tw1/0/1 4.2 84 52.0 Class1 ON'' @ [CR]) = ''Tw1/0/1 4.2 84 52.0 Class1 ON''"
    by (simp add: TrimSpace_def cls_defs)
  have f2: "Fields (TrimSpace ''Tw1/0/2 4.2'') = [''Tw1/0/2'', ''4.2'']"
    by (simp add: TrimSpace_def cls_defs)
  have o2: "\<forall>l'\<in>set [''Tw1/0/2 4.2'']. prefix ''Tw'' (TrimSpace l') \<and> 6 \<le> length (Fields (TrimSpace l'))
                 \<longrightarrow> Fields (TrimSpace l') ! 0 \<noteq> ''Tw1/0/1''"
    using f2 by simp
  have short: "\<not> prefix ''Tw'' (TrimSpace ''Tw1/0/2 4.2'') \<or> length (Fields (TrimSpace ''Tw1/0/2 4.2'')) < 6"
    using f2 by simp
  have l1: "poeLine ?pf ''Interface Power'' Map.empty = Inr Map.empty"
    by (rule poeLine_skip) (simp add: TrimSpace_def cls_defs)
  have l2: "poeLine ?pf ('' Tw1/0/1 4.2 84 52.0 Class1 ON'' @ [CR]) Map.empty = Inr [''Tw1/0/1'' \<mapsto> ?rec]"
    by (rule poeLine_example [OF t2 p v])
  have l3: "poeLine ?pf ''Tw1/0/2 4.2'' [''Tw1/0/1'' \<mapsto> ?rec] = Inr [''Tw1/0/1'' \<mapsto> ?rec]"
    by (rule poeLine_skip [OF short])
  have r2: "ParsePoETable ?pf ?o2 = Inr [''Tw1/0/1'' \<mapsto> ?rec]"
    unfolding ParsePoETable_def s2 using l1 l2 l3 by simp
  from inst s2 t2 o2 r2 have 2: "[''Tw1/0/1'' \<mapsto> ?rec] ''Tw1/0/1'' = Some ?rec"
    by blast
  have s3: "Split (''Tw1/0/2 4.2'' @ [LF] @ ''Total'') LF = [] @ ''Tw1/0/2 4.2'' # [''Total'']"
    by (simp add: LF_def)
  have tw3: "prefix ''Tw'' (TrimSpace ''Tw1/0/2 4.2'')"
    by (simp add: TrimSpace_def cls_defs)
  have n3: "length (Fields (TrimSpace ''Tw1/0/2 4.2'')) < 6" using f2 by simp
  from inst s3 tw3 n3
  have 3: "ParsePoETable ?pf (''Tw1/0/2 4.2'' @ [LF] @ ''Total'')
      = poeLoop ?pf ([] @ [''Total'']) Map.empty" by blast
  have s4: "Split ''Tw1/0/1 abc 84 52.0 Class1 ON'' LF = [] @ ''Tw1/0/1 abc 84 52.0 Class1 ON'' # []"
    by (simp add: LF_def)
  have f4: "Fields (TrimSpace ''Tw1/0/1 abc 84 52.0 Class1 ON'')
      = [''Tw1/0/1'', ''abc'', ''84'', ''52.0'', ''Class1'', ''ON'']"
    by (simp add: TrimSpace_def cls_defs)
  have tw4: "prefix ''Tw'' (TrimSpace ''Tw1/0/1 abc 84 52.0 Class1 ON'')"
    by (simp add: TrimSpace_def cls_defs)
  have n4: "6 \<le> length (Fields (TrimSpace ''Tw1/0/1 abc 84 52.0 Class1 ON''))"
    unfolding f4 by simp
  have b4: "?pf (Fields (TrimSpace ''Tw1/0/1 abc 84 52.0 Class1 ON'') ! 1) = None"
    unfolding f4 by simp
  from inst s4 tw4 n4 b4
  have 4: "\<exists>e. ParsePoETable ?pf ''Tw1/0/1 abc 84 52.0 Class1 ON'' = Inl e" by blast
  from p 1 r2 2 3 4 show ?thesis by blast
qed

section \<open>The list parsers\<close>

lemma statusLine_Inr: "\<exists>r. statusLine l rs = Inr r"
  by (simp add: statusLine_def Let_def)

lemma statusLoop_Inr: "\<exists>r. statusLoop ls rs = Inr r"
proof (induction ls arbitrary: rs)
  case Nil
  then show ?case by simp
next
  case (Cons l ls)
  from statusLine_Inr obtain r1 where "statusLine l rs = Inr r1" by blast
  with Cons.IH [of r1] show ?case by simp
qed

lemma statusLoop_append:
  "statusLoop (pre @ post) rs =
     (case statusLoop pre rs of Inl e \<Rightarrow> Inl e | Inr rs' \<Rightarrow> statusLoop post rs')"
  by (induction pre arbitrary: rs) (auto split: sum.splits)

lemma statusLine_skip:
  "prefix ''Port'' (TrimSpace l) \<or> prefix ''----'' (TrimSpace l) \<or> TrimSpace l = []
     \<or> length (Fields (TrimSpace l)) < 6 \<Longrightarrow> statusLine l rs = Inr rs"
  by (auto simp: statusLine_def Let_def)

lemma configLine_Inr: "\<exists>r. configLine l rs = Inr r"
  by (simp add: configLine_def Let_def)

lemma configLoop_Inr: "\<exists>r. configLoop ls rs = Inr r"
proof (induction ls arbitrary: rs)
  case Nil
  then show ?case by simp
next
  case (Cons l ls)
  from configLine_Inr obtain r1 where "configLine l rs = Inr r1" by blast
  with Cons.IH [of r1] show ?case by simp
qed

lemma configLoop_append:
  "configLoop (pre @ post) rs =
     (case configLoop pre rs of Inl e \<Rightarrow> Inl e | Inr rs' \<Rightarrow> configLoop post rs')"
  by (induction pre arbitrary: rs) (auto split: sum.splits)

lemma configLine_skip:
  "prefix ''Port'' (TrimSpace l) \<or> prefix ''----'' (TrimSpace l) \<or> TrimSpace l = []
     \<or> length (Fields (TrimSpace l)) < 5 \<Longrightarrow> configLine l rs = Inr rs"
  by (auto simp: configLine_def Let_def)

lemma macLine_Inr: "\<exists>r. macLine l rs = Inr r"
  by (simp add: macLine_def Let_def split: sum.splits)

lemma macLoop_Inr: "\<exists>r. macLoop ls rs = Inr r"
proof (induction ls arbitrary: rs)
  case Nil
  then show ?case by simp
next
  case (Cons l ls)
  from macLine_Inr obtain r1 where "macLine l rs = Inr r1" by blast
  with Cons.IH [of r1] show ?case by simp
qed

lemma macLoop_append:
  "macLoop (pre @ post) rs =
     (case macLoop pre rs of Inl e \<Rightarrow> Inl e | Inr rs' \<Rightarrow> macLoop post rs')"
  by (induction pre arbitrary: rs) (auto split: sum.splits)

lemma macLine_skip:
  "prefix ''MAC'' (TrimSpace l) \<or> prefix ''---'' (TrimSpace l) \<or> prefix ''Total'' (TrimSpace l)
     \<or> TrimSpace l = [] \<or> length (Fields (TrimSpace l)) \<noteq> 5
     \<or> (\<exists>ne. Atoi (Fields (TrimSpace l) ! 1) = Inl ne) \<Longrightarrow> macLine l rs = Inr rs"
  by (auto simp: macLine_def Let_def)

text \<open>
  Claim C10. \<^verbatim>\<open>ParseInterfaceStatus\<close>, \<^verbatim>\<open>ParseInterfaceConfig\<close> and \<^verbatim>\<open>ParseMACTable\<close>
  return a result and no error on every input. A line that is a header or a
  separator, is empty, has not the number of fields expected or, in the MAC table,
  has a VLAN field that \<^verbatim>\<open>Atoi\<close> rejects, is skipped: the result is that of the input
  without the line.
\<close>

theorem list_parsers_never_fail:
  "(\<exists>r. ParseInterfaceStatus outp = Inr r)
   \<and> (\<exists>r. ParseInterfaceConfig outp = Inr r)
   \<and> (\<exists>r. ParseMACTable outp = Inr r)
   \<and> (Split outp LF = pre @ l # post
        \<and> (prefix ''Port'' (TrimSpace l) \<or> prefix ''----'' (TrimSpace l) \<or> TrimSpace l = []
             \<or> length (Fields (TrimSpace l)) < 6)
        \<longrightarrow> ParseInterfaceStatus outp = statusLoop (pre @ post) [])
   \<and> (Split outp LF = pre @ l # post
        \<and> (prefix ''Port'' (TrimSpace l) \<or> prefix ''----'' (TrimSpace l) \<or> TrimSpace l = []
             \<or> length (Fields (TrimSpace l)) < 5)
        \<longrightarrow> ParseInterfaceConfig outp = configLoop (pre @ post) [])
   \<and> (Split outp LF = pre @ l # post
        \<and> (prefix ''MAC'' (TrimSpace l) \<or> prefix ''---'' (TrimSpace l)
             \<or> prefix ''Total'' (TrimSpace l) \<or> TrimSpace l = []
             \<or> length (Fields (TrimSpace l)) \<noteq> 5
             \<or> (\<exists>ne. Atoi (Fields (TrimSpace l) ! 1) = Inl ne))
        \<longrightarrow> ParseMACTable outp = macLoop (pre @ post) [])"
proof (intro conjI impI)
  show "\<exists>r. ParseInterfaceStatus outp = Inr r"
    unfolding ParseInterfaceStatus_def by (rule statusLoop_Inr)
  show "\<exists>r. ParseInterfaceConfig outp = Inr r"
    unfolding ParseInterfaceConfig_def by (rule configLoop_Inr)
  show "\<exists>r. ParseMACTable outp = Inr r"
    unfolding ParseMACTable_def by (rule macLoop_Inr)
next
  assume a: "Split outp LF = pre @ l # post
        \<and> (prefix ''Port'' (TrimSpace l) \<or> prefix ''----'' (TrimSpace l) \<or> TrimSpace l = []
             \<or> length (Fields (TrimSpace l)) < 6)"
  then have s: "Split outp LF = pre @ l # post" by blast
  from a have "\<And>rs. statusLine l rs = Inr rs" by (intro statusLine_skip) blast
  then have "statusLoop (pre @ l # post) [] = statusLoop (pre @ post) []"
    by (simp add: statusLoop_append split: sum.splits)
  then show "ParseInterfaceStatus outp = statusLoop (pre @ post) []"
    unfolding ParseInterfaceStatus_def s .
next
  assume a: "Split outp LF = pre @ l # post
        \<and> (prefix ''Port'' (TrimSpace l) \<or> prefix ''----'' (TrimSpace l) \<or> TrimSpace l = []
             \<or> length (Fields (TrimSpace l)) < 5)"
  then have s: "Split outp LF = pre @ l # post" by blast
  from a have "\<And>rs. configLine l rs = Inr rs" by (intro configLine_skip) blast
  then have "configLoop (pre @ l # post) [] = configLoop (pre @ post) []"
    by (simp add: configLoop_append split: sum.splits)
  then show "ParseInterfaceConfig outp = configLoop (pre @ post) []"
    unfolding ParseInterfaceConfig_def s .
next
  assume a: "Split outp LF = pre @ l # post
        \<and> (prefix ''MAC'' (TrimSpace l) \<or> prefix ''---'' (TrimSpace l)
             \<or> prefix ''Total'' (TrimSpace l) \<or> TrimSpace l = []
             \<or> length (Fields (TrimSpace l)) \<noteq> 5
             \<or> (\<exists>ne. Atoi (Fields (TrimSpace l) ! 1) = Inl ne))"
  then have s: "Split outp LF = pre @ l # post" by blast
  from a have "\<And>rs. macLine l rs = Inr rs" by (intro macLine_skip) blast
  then have "macLoop (pre @ l # post) [] = macLoop (pre @ post) []"
    by (simp add: macLoop_append split: sum.splits)
  then show "ParseMACTable outp = macLoop (pre @ post) []"
    unfolding ParseMACTable_def s .
qed

theorem list_parsers_never_fail_witness:
  "Split ''00:11:22:33:44:55 v1 Gi1/0/2 dynamic aging'' LF
      = [] @ ''00:11:22:33:44:55 v1 Gi1/0/2 dynamic aging'' # []
   \<and> length (Fields (TrimSpace ''00:11:22:33:44:55 v1 Gi1/0/2 dynamic aging'')) = 5
   \<and> Atoi (Fields (TrimSpace ''00:11:22:33:44:55 v1 Gi1/0/2 dynamic aging'') ! 1) = Inl ErrSyntax
   \<and> ParseMACTable ''00:11:22:33:44:55 v1 Gi1/0/2 dynamic aging'' = Inr []
   \<and> ParseInterfaceStatus ''00:11:22:33:44:55 v1 Gi1/0/2 dynamic aging'' = Inr []
   \<and> (\<exists>r. ParseInterfaceConfig ''00:11:22:33:44:55 v1 Gi1/0/2 dynamic aging'' = Inr r)"
proof -
  let ?o = "''00:11:22:33:44:55 v1 Gi1/0/2 dynamic aging''"
  have s: "Split ?o LF = [] @ ?o # []" by (simp add: LF_def)
  have f: "Fields (TrimSpace ?o) = [''00:11:22:33:44:55'', ''v1'', ''Gi1/0/2'', ''dynamic'', ''aging'']"
    by (simp add: TrimSpace_def cls_defs)
  have n: "length (Fields (TrimSpace ?o)) = 5" unfolding f by simp
  have n6: "length (Fields (TrimSpace ?o)) < 6" unfolding f by simp
  have a: "Atoi (Fields (TrimSpace ?o) ! 1) = Inl ErrSyntax"
    unfolding f by (simp add: Atoi_def cls_defs)
  note inst = list_parsers_never_fail [of ?o "[]" ?o "[]"]
  from inst s a have "ParseMACTable ?o = macLoop ([] @ []) []" by blast
  then have 1: "ParseMACTable ?o = Inr []" by simp
  from inst s n6 have "ParseInterfaceStatus ?o = statusLoop ([] @ []) []" by blast
  then have 2: "ParseInterfaceStatus ?o = Inr []" by simp
  from inst have 3: "\<exists>r. ParseInterfaceConfig ?o = Inr r" by blast
  from s n a 1 2 3 show ?thesis by blast
qed

section \<open>The interface counters\<close>

lemmas kv_defs = keyValRegex_FindStringSubmatch_def keyValRegex_key_def keyValRegex_sep_def
  keyValRegex_val_def

lemma countersLoop_append:
  "countersLoop (pre @ post) st =
     (case countersLoop pre st of Inl e \<Rightarrow> Inl e | Inr st' \<Rightarrow> countersLoop post st')"
  by (induction pre arbitrary: st) (auto split: sum.splits)

lemma countersLine_port:
  assumes t: "TrimSpace l = ''Port: Gi1/0/1''"
  shows "countersLine l st = Inr ((fst st)(''Gi1/0/1'' \<mapsto> Map.empty), ''Gi1/0/1'')"
proof -
  have 1: "prefix ''Port:'' (TrimSpace l)" unfolding t by simp
  have 2: "SplitN2 (TrimSpace l) (CHR '':'') = [''Port'', '' Gi1/0/1'']"
    unfolding t by (simp add: SplitN2_def)
  have 3: "TrimSpace '' Gi1/0/1'' = ''Gi1/0/1''" by (simp add: TrimSpace_def cls_defs)
  show ?thesis by (simp add: countersLine_def Let_def 1 2 3)
qed

lemma FindStringSubmatch_example:
  "keyValRegex_FindStringSubmatch ''InOctets:       1,234,567''
     = [''InOctets:       1,234,567'', ''InOctets'', ''1,234,567'']"
  by (simp add: kv_defs cls_defs)

lemma ParseUint_example: "ParseUint (removeCommas ''1,234,567'') = Inr 1234567"
  by (simp add: ParseUint_def removeCommas_def decimal_def cls_defs)

lemma countersLine_row:
  assumes t: "TrimSpace l = ''InOctets:       1,234,567''"
    and cp: "snd st \<noteq> []" and c: "fst st (snd st) = Some c"
  shows "countersLine l st = Inr ((fst st)(snd st \<mapsto> c(''InOctets'' \<mapsto> 1234567)), snd st)"
proof -
  have 1: "\<not> prefix ''Port:'' (TrimSpace l)" unfolding t by simp
  have 2: "keyValRegex_FindStringSubmatch (TrimSpace l)
     = [''InOctets:       1,234,567'', ''InOctets'', ''1,234,567'']"
    unfolding t by (rule FindStringSubmatch_example)
  have 3: "TrimSpace ''InOctets'' = ''InOctets''" by (simp add: TrimSpace_def cls_defs)
  show ?thesis by (simp add: countersLine_def Let_def 1 2 3 cp c ParseUint_example)
qed

lemma countersLine_fail:
  assumes "\<not> prefix ''Port:'' (TrimSpace l)" "snd st \<noteq> []"
    and "length (keyValRegex_FindStringSubmatch (TrimSpace l)) = 3"
    and "ParseUint (removeCommas (keyValRegex_FindStringSubmatch (TrimSpace l) ! 2)) = Inl ne"
  shows "countersLine l st
     = Inl (InvalidNumber (TrimSpace (keyValRegex_FindStringSubmatch (TrimSpace l) ! 1)))"
  using assms by (simp add: countersLine_def Let_def)

lemma countersLine_no_port:
  assumes "countersLine l (s, cp) = Inr (s', cp')" "\<not> prefix ''Port:'' (TrimSpace l)"
    and "s P = Some c"
  shows "cp' = cp \<and> (\<exists>c'. s' P = Some c')"
  using assms
  by (auto simp: countersLine_def Let_def split: if_splits sum.splits option.splits)

lemma countersLoop_no_port:
  assumes "countersLoop ls (s, cp) = Inr (s', cp')"
    and "\<forall>l\<in>set ls. \<not> prefix ''Port:'' (TrimSpace l)" and "s P = Some c"
  shows "cp' = cp \<and> (\<exists>c'. s' P = Some c')"
  using assms
proof (induction ls arbitrary: s c)
  case Nil
  then show ?case by simp
next
  case (Cons l ls)
  from Cons.prems(1) obtain s1 cp1 where 1: "countersLine l (s, cp) = Inr (s1, cp1)"
    and 2: "countersLoop ls (s1, cp1) = Inr (s', cp')"
    by (auto split: sum.splits)
  from Cons.prems(2) have np: "\<not> prefix ''Port:'' (TrimSpace l)" by simp
  from countersLine_no_port [OF 1 np Cons.prems(3)] obtain c1 where
    c1: "cp1 = cp" "s1 P = Some c1" by blast
  from 2 c1 have "countersLoop ls (s1, cp) = Inr (s', cp')" by simp
  from Cons.IH [OF this _ c1(2)] Cons.prems(2) show ?case by simp
qed

lemma countersLine_keep:
  assumes run: "countersLine l (s, cp) = Inr (s', cp')"
    and c: "s P = Some c" and v: "c K = Some v"
    and np: "\<not> (prefix ''Port:'' (TrimSpace l)
               \<and> TrimSpace (SplitN2 (TrimSpace l) (CHR '':'') ! 1) = P)"
    and nk: "\<not> (length (keyValRegex_FindStringSubmatch (TrimSpace l)) = 3
               \<and> TrimSpace (keyValRegex_FindStringSubmatch (TrimSpace l) ! 1) = K)"
  shows "\<exists>c'. s' P = Some c' \<and> c' K = Some v"
proof (cases "prefix ''Port:'' (TrimSpace l)")
  case True
  with run np c v show ?thesis
    by (auto simp: countersLine_def Let_def split: if_splits)
next
  case False
  show ?thesis
  proof (cases "cp = [] \<or> length (keyValRegex_FindStringSubmatch (TrimSpace l)) \<noteq> 3")
    case True
    with False run have "s' = s"
      by (auto simp: countersLine_def Let_def split: if_splits)
    with c v show ?thesis by simp
  next
    case row: False
    let ?key = "TrimSpace (keyValRegex_FindStringSubmatch (TrimSpace l) ! 1)"
    from row nk have k: "?key \<noteq> K" by simp
    from False row run obtain val c0 where "s cp = Some c0"
      and s': "s' = s(cp \<mapsto> c0(?key \<mapsto> val))"
      by (auto simp: countersLine_def Let_def split: sum.splits option.splits)
    with c v k show ?thesis by (cases "cp = P") auto
  qed
qed

lemma countersLoop_keep:
  assumes "countersLoop ls (s, cp) = Inr (s', cp')"
    and "s P = Some c" and "c K = Some v"
    and "\<forall>l\<in>set ls.
           \<not> (prefix ''Port:'' (TrimSpace l)
               \<and> TrimSpace (SplitN2 (TrimSpace l) (CHR '':'') ! 1) = P)
         \<and> \<not> (length (keyValRegex_FindStringSubmatch (TrimSpace l)) = 3
               \<and> TrimSpace (keyValRegex_FindStringSubmatch (TrimSpace l) ! 1) = K)"
  shows "\<exists>c'. s' P = Some c' \<and> c' K = Some v"
  using assms
proof (induction ls arbitrary: s cp c)
  case Nil
  then show ?case by simp
next
  case (Cons l ls)
  from Cons.prems(1) obtain s1 cp1 where 1: "countersLine l (s, cp) = Inr (s1, cp1)"
    and 2: "countersLoop ls (s1, cp1) = Inr (s', cp')"
    by (auto split: sum.splits)
  from Cons.prems(4) have
    np: "\<not> (prefix ''Port:'' (TrimSpace l)
               \<and> TrimSpace (SplitN2 (TrimSpace l) (CHR '':'') ! 1) = P)"
    and nk: "\<not> (length (keyValRegex_FindStringSubmatch (TrimSpace l)) = 3
               \<and> TrimSpace (keyValRegex_FindStringSubmatch (TrimSpace l) ! 1) = K)"
    by simp_all
  from countersLine_keep [OF 1 Cons.prems(2) Cons.prems(3) np nk] obtain c1 where
    c1: "s1 P = Some c1" "c1 K = Some v" by blast
  from Cons.IH [OF 2 c1] Cons.prems(4) show ?case by simp
qed

lemma countersLoop_fail_at:
  assumes nostate: "\<forall>stats. countersLoop pre (Map.empty, []) \<noteq> Inr (stats, [])"
    and np: "\<not> prefix ''Port:'' (TrimSpace l)"
    and m: "length (keyValRegex_FindStringSubmatch (TrimSpace l)) = 3"
    and bad: "ParseUint (removeCommas (keyValRegex_FindStringSubmatch (TrimSpace l) ! 2)) = Inl ne"
  shows "\<exists>e. countersLoop (pre @ l # post) (Map.empty, []) = Inl e"
proof (cases "countersLoop pre (Map.empty, [])")
  case (Inl e)
  then show ?thesis by (simp add: countersLoop_append)
next
  case (Inr st)
  with nostate have "snd st \<noteq> []" by (cases st) auto
  from countersLine_fail [OF np this m bad] Inr show ?thesis
    by (simp add: countersLoop_append)
qed

lemma countersLine_no_panic:
  assumes "cp \<noteq> [] \<longrightarrow> s cp \<noteq> None"
  shows "countersLine l (s, cp) \<noteq> Inl NilMapPanic
     \<and> (\<forall>s' cp'. countersLine l (s, cp) = Inr (s', cp') \<longrightarrow> (cp' \<noteq> [] \<longrightarrow> s' cp' \<noteq> None))"
  using assms
  by (auto simp: countersLine_def Let_def split: if_splits sum.splits option.splits)

lemma countersLoop_no_panic:
  assumes "cp \<noteq> [] \<longrightarrow> s cp \<noteq> None"
  shows "countersLoop ls (s, cp) \<noteq> Inl NilMapPanic"
  using assms
proof (induction ls arbitrary: s cp)
  case Nil
  then show ?case by simp
next
  case (Cons l ls)
  show ?case
  proof (cases "countersLine l (s, cp)")
    case (Inl e)
    with countersLine_no_panic [where s = s and cp = cp and l = l, OF Cons.prems]
    show ?thesis by simp
  next
    case (Inr st)
    obtain s1 cp1 where st: "st = (s1, cp1)" by (cases st)
    with Inr countersLine_no_panic [where s = s and cp = cp and l = l, OF Cons.prems]
    have "cp1 \<noteq> [] \<longrightarrow> s1 cp1 \<noteq> None"
      by blast
    from Cons.IH [where s = s1 and cp = cp1, OF this] Inr st show ?thesis by simp
  qed
qed

lemma ParseInterfaceCounters_no_panic: "ParseInterfaceCounters outp \<noteq> Inl NilMapPanic"
  using countersLoop_no_panic [of "[]" Map.empty "Split outp LF"]
  by (auto simp: ParseInterfaceCounters_def split: sum.splits)

text \<open>
  Claim C8. (1) The input of the two lines \<^verbatim>\<open>Port: Gi1/0/1\<close> and
  \<^verbatim>\<open>InOctets:       1,234,567\<close> yields a result whose map for \<^verbatim>\<open>Gi1/0/1\<close> takes
  \<^verbatim>\<open>InOctets\<close> to 1234567: the commas are removed before the number is read. (2) So
  does every input in which the first line is followed by the second (white space
  around them aside), when no port header stands between them, no later line is a
  header for the same port or a row with the key \<^verbatim>\<open>InOctets\<close>, and the call
  succeeds.
\<close>

theorem ParseInterfaceCounters_scenario:
  "(\<exists>stats c. ParseInterfaceCounters (''Port: Gi1/0/1'' @ [LF] @ ''InOctets:       1,234,567'')
        = Inr stats \<and> stats ''Gi1/0/1'' = Some c \<and> c ''InOctets'' = Some 1234567)
   \<and> (Split outp LF = pre @ l1 # mid @ l2 # post
        \<and> TrimSpace l1 = ''Port: Gi1/0/1''
        \<and> TrimSpace l2 = ''InOctets:       1,234,567''
        \<and> (\<forall>l\<in>set mid. \<not> prefix ''Port:'' (TrimSpace l))
        \<and> (\<forall>l\<in>set post.
               \<not> (prefix ''Port:'' (TrimSpace l)
                   \<and> TrimSpace (SplitN2 (TrimSpace l) (CHR '':'') ! 1) = ''Gi1/0/1'')
             \<and> \<not> (length (keyValRegex_FindStringSubmatch (TrimSpace l)) = 3
                   \<and> TrimSpace (keyValRegex_FindStringSubmatch (TrimSpace l) ! 1) = ''InOctets''))
        \<and> ParseInterfaceCounters outp = Inr stats
        \<longrightarrow> (\<exists>c. stats ''Gi1/0/1'' = Some c \<and> c ''InOctets'' = Some 1234567))"
proof (intro conjI impI)
  have t1: "TrimSpace ''Port: Gi1/0/1'' = ''Port: Gi1/0/1''"
    and t2: "TrimSpace ''InOctets:       1,234,567'' = ''InOctets:       1,234,567''"
    by (simp_all add: TrimSpace_def cls_defs)
  have s: "Split (''Port: Gi1/0/1'' @ [LF] @ ''InOctets:       1,234,567'') LF
     = [''Port: Gi1/0/1'', ''InOctets:       1,234,567'']"
    by (simp add: LF_def)
  let ?s1 = "[''Gi1/0/1'' \<mapsto> Map.empty] :: InterfaceStats"
  have 1: "countersLine ''Port: Gi1/0/1'' (Map.empty, []) = Inr (?s1, ''Gi1/0/1'')"
    using countersLine_port [OF t1, of "(Map.empty, [])"] by simp
  have 2: "countersLine ''InOctets:       1,234,567'' (?s1, ''Gi1/0/1'')
     = Inr (?s1(''Gi1/0/1'' \<mapsto> [''InOctets'' \<mapsto> 1234567]), ''Gi1/0/1'')"
    using countersLine_row [OF t2, of "(?s1, ''Gi1/0/1'')" Map.empty] by simp
  have "ParseInterfaceCounters (''Port: Gi1/0/1'' @ [LF] @ ''InOctets:       1,234,567'')
     = Inr (?s1(''Gi1/0/1'' \<mapsto> [''InOctets'' \<mapsto> 1234567]))"
    unfolding ParseInterfaceCounters_def s using 1 2 by simp
  then show "\<exists>stats c. ParseInterfaceCounters (''Port: Gi1/0/1'' @ [LF] @ ''InOctets:       1,234,567'')
        = Inr stats \<and> stats ''Gi1/0/1'' = Some c \<and> c ''InOctets'' = Some 1234567"
    by simp
next
  assume a: "Split outp LF = pre @ l1 # mid @ l2 # post
        \<and> TrimSpace l1 = ''Port: Gi1/0/1''
        \<and> TrimSpace l2 = ''InOctets:       1,234,567''
        \<and> (\<forall>l\<in>set mid. \<not> prefix ''Port:'' (TrimSpace l))
        \<and> (\<forall>l\<in>set post.
               \<not> (prefix ''Port:'' (TrimSpace l)
                   \<and> TrimSpace (SplitN2 (TrimSpace l) (CHR '':'') ! 1) = ''Gi1/0/1'')
             \<and> \<not> (length (keyValRegex_FindStringSubmatch (TrimSpace l)) = 3
                   \<and> TrimSpace (keyValRegex_FindStringSubmatch (TrimSpace l) ! 1) = ''InOctets''))
        \<and> ParseInterfaceCounters outp = Inr stats"
  then have s: "Split outp LF = pre @ l1 # mid @ l2 # post"
    and t1: "TrimSpace l1 = ''Port: Gi1/0/1''"
    and t2: "TrimSpace l2 = ''InOctets:       1,234,567''"
    and m: "\<forall>l\<in>set mid. \<not> prefix ''Port:'' (TrimSpace l)"
    and p: "\<forall>l\<in>set post.
               \<not> (prefix ''Port:'' (TrimSpace l)
                   \<and> TrimSpace (SplitN2 (TrimSpace l) (CHR '':'') ! 1) = ''Gi1/0/1'')
             \<and> \<not> (length (keyValRegex_FindStringSubmatch (TrimSpace l)) = 3
                   \<and> TrimSpace (keyValRegex_FindStringSubmatch (TrimSpace l) ! 1) = ''InOctets'')"
    and ok: "ParseInterfaceCounters outp = Inr stats"
    by blast+
  from ok obtain cpf where run: "countersLoop (pre @ l1 # mid @ l2 # post) (Map.empty, []) = Inr (stats, cpf)"
    unfolding ParseInterfaceCounters_def s by (auto split: sum.splits)
  then obtain st0 where r0: "countersLoop pre (Map.empty, []) = Inr st0"
    and r1: "countersLoop (l1 # mid @ l2 # post) st0 = Inr (stats, cpf)"
    by (auto simp: countersLoop_append split: sum.splits)
  let ?P = "''Gi1/0/1''"
  let ?s1 = "(fst st0)(?P \<mapsto> Map.empty)"
  from r1 countersLine_port [OF t1, of st0]
  have "countersLoop (mid @ l2 # post) (?s1, ?P) = Inr (stats, cpf)" by simp
  then obtain s2 cp2 where r2: "countersLoop mid (?s1, ?P) = Inr (s2, cp2)"
    and r3: "countersLoop (l2 # post) (s2, cp2) = Inr (stats, cpf)"
    by (auto simp: countersLoop_append split: sum.splits)
  from countersLoop_no_port [OF r2 m, of ?P Map.empty] obtain c2 where
    c2: "cp2 = ?P" "s2 ?P = Some c2" by auto
  from countersLine_row [OF t2, of "(s2, cp2)" c2] c2
  have "countersLine l2 (s2, cp2) = Inr (s2(?P \<mapsto> c2(''InOctets'' \<mapsto> 1234567)), ?P)" by simp
  with r3 have r4: "countersLoop post (s2(?P \<mapsto> c2(''InOctets'' \<mapsto> 1234567)), ?P) = Inr (stats, cpf)"
    by simp
  from countersLoop_keep [OF r4 _ _ p, of "c2(''InOctets'' \<mapsto> 1234567)" 1234567]
  show "\<exists>c. stats ''Gi1/0/1'' = Some c \<and> c ''InOctets'' = Some 1234567" by simp
qed

theorem ParseInterfaceCounters_scenario_witness:
  "ParseInterfaceCounters
     (''Port: Gi1/0/1'' @ [CR, LF] @ ''InUcastPkts: 10'' @ [CR, LF]
        @ ''InOctets:       1,234,567'' @ [CR, LF] @ ''OutOctets: 5'')
     = Inr [''Gi1/0/1'' \<mapsto> [''InUcastPkts'' \<mapsto> 10, ''InOctets'' \<mapsto> 1234567, ''OutOctets'' \<mapsto> 5]]
   \<and> (\<exists>c. [''Gi1/0/1'' \<mapsto> [''InUcastPkts'' \<mapsto> 10, ''InOctets'' \<mapsto> 1234567, ''OutOctets'' \<mapsto> 5]]
          ''Gi1/0/1'' = Some c \<and> c ''InOctets'' = Some (1234567 :: nat))"
proof -
  let ?o = "''Port: Gi1/0/1'' @ [CR, LF] @ ''InUcastPkts: 10'' @ [CR, LF]
        @ ''InOctets:       1,234,567'' @ [CR, LF] @ ''OutOctets: 5''"
  let ?stats = "[''Gi1/0/1'' \<mapsto> [''InUcastPkts'' \<mapsto> 10, ''InOctets'' \<mapsto> 1234567, ''OutOctets'' \<mapsto> 5]]
     :: InterfaceStats"
  have s: "Split ?o LF = [] @ (''Port: Gi1/0/1'' @ [CR]) # [''InUcastPkts: 10'' @ [CR]]
      @ (''InOctets:       1,234,567'' @ [CR]) # [''OutOctets: 5'']"
    by (simp add: LF_def CR_def)
  have t1: "TrimSpace (''Port: Gi1/0/1'' @ [CR]) = ''Port: Gi1/0/1''"
    and t2: "TrimSpace (''InOctets:       1,234,567'' @ [CR]) = ''InOctets:       1,234,567''"
    and t3: "TrimSpace (''InUcastPkts: 10'' @ [CR]) = ''InUcastPkts: 10''"
    and t4: "TrimSpace ''OutOctets: 5'' = ''OutOctets: 5''"
    by (simp_all add: TrimSpace_def cls_defs)
  have m: "\<forall>l\<in>set [''InUcastPkts: 10'' @ [CR]]. \<not> prefix ''Port:'' (TrimSpace l)"
    using t3 by simp
  have g4: "keyValRegex_FindStringSubmatch ''OutOctets: 5'' = [''OutOctets: 5'', ''OutOctets'', ''5'']"
    by (simp add: kv_defs cls_defs)
  have k4: "TrimSpace ''OutOctets'' = ''OutOctets''" by (simp add: TrimSpace_def cls_defs)
  have p: "\<forall>l\<in>set [''OutOctets: 5''].
               \<not> (prefix ''Port:'' (TrimSpace l)
                   \<and> TrimSpace (SplitN2 (TrimSpace l) (CHR '':'') ! 1) = ''Gi1/0/1'')
             \<and> \<not> (length (keyValRegex_FindStringSubmatch (TrimSpace l)) = 3
                   \<and> TrimSpace (keyValRegex_FindStringSubmatch (TrimSpace l) ! 1) = ''InOctets'')"
    by (simp add: t4 g4 k4)
  have run: "ParseInterfaceCounters ?o = Inr ?stats"
    by (simp add: ParseInterfaceCounters_def countersLine_def Let_def TrimSpace_def SplitN2_def
      ParseUint_def removeCommas_def decimal_def kv_defs cls_defs)
  from ParseInterfaceCounters_scenario [of ?o "[]" "''Port: Gi1/0/1'' @ [CR]" "[''InUcastPkts: 10'' @ [CR]]"
      "''InOctets:       1,234,567'' @ [CR]" "[''OutOctets: 5'']" ?stats] s t1 t2 m p run
  have "\<exists>c. ?stats ''Gi1/0/1'' = Some c \<and> c ''InOctets'' = Some 1234567" by blast
  with run show ?thesis by blast
qed

section \<open>Numeric failures across the parsers\<close>

text \<open>
  Claim C6, as amended. The power parser fails the whole call at a row that starts
  with \<^verbatim>\<open>Tw\<close>, has six fields or more and a power, current or voltage field that does
  not parse. It is not alone: the counters parser fails the whole call at a
  key/value row, under a current port, whose number \<^verbatim>\<open>ParseUint\<close> rejects. The
  status, configuration and MAC table parsers never fail; the MAC table parser
  skips a row of five fields whose VLAN does not parse.
\<close>

theorem numeric_failure_policy:
  fixes ParseFloat :: "string \<Rightarrow> 'f option"
  shows "(Split outp LF = pre @ l # post
        \<and> prefix ''Tw'' (TrimSpace l) \<and> 6 \<le> length (Fields (TrimSpace l))
        \<and> (ParseFloat (Fields (TrimSpace l) ! 1) = None
             \<or> (\<exists>ne. Atoi (Fields (TrimSpace l) ! 2) = Inl ne)
             \<or> ParseFloat (Fields (TrimSpace l) ! 3) = None)
        \<longrightarrow> (\<exists>e. ParsePoETable ParseFloat outp = Inl e))
   \<and> (Split outp LF = pre @ l # post
        \<and> (\<forall>stats. countersLoop pre (Map.empty, []) \<noteq> Inr (stats, []))
        \<and> \<not> prefix ''Port:'' (TrimSpace l)
        \<and> length (keyValRegex_FindStringSubmatch (TrimSpace l)) = 3
        \<and> (\<exists>ne. ParseUint (removeCommas (keyValRegex_FindStringSubmatch (TrimSpace l) ! 2)) = Inl ne)
        \<longrightarrow> (\<exists>e. ParseInterfaceCounters outp = Inl e))
   \<and> (\<exists>r. ParseInterfaceStatus outp = Inr r)
   \<and> (\<exists>r. ParseInterfaceConfig outp = Inr r)
   \<and> (\<exists>r. ParseMACTable outp = Inr r)
   \<and> (length (Fields (TrimSpace l)) = 5 \<and> (\<exists>ne. Atoi (Fields (TrimSpace l) ! 1) = Inl ne)
        \<longrightarrow> macLine l results = Inr results)"
proof (intro conjI impI)
  assume a: "Split outp LF = pre @ l # post
        \<and> prefix ''Tw'' (TrimSpace l) \<and> 6 \<le> length (Fields (TrimSpace l))
        \<and> (ParseFloat (Fields (TrimSpace l) ! 1) = None
             \<or> (\<exists>ne. Atoi (Fields (TrimSpace l) ! 2) = Inl ne)
             \<or> ParseFloat (Fields (TrimSpace l) ! 3) = None)"
  then have s: "Split outp LF = pre @ l # post"
    and tw: "prefix ''Tw'' (TrimSpace l)" and six: "6 \<le> length (Fields (TrimSpace l))"
    and bad: "ParseFloat (Fields (TrimSpace l) ! 1) = None
         \<or> (\<exists>ne. Atoi (Fields (TrimSpace l) ! 2) = Inl ne)
         \<or> ParseFloat (Fields (TrimSpace l) ! 3) = None"
    by simp_all
  have "\<exists>e. poeLoop ParseFloat (pre @ l # post) Map.empty = Inl e"
    by (simp add: poeLoop_append poeLine_fail [OF tw six bad] split: sum.splits)
  then show "\<exists>e. ParsePoETable ParseFloat outp = Inl e"
    unfolding ParsePoETable_def s .
next
  assume a: "Split outp LF = pre @ l # post
        \<and> (\<forall>stats. countersLoop pre (Map.empty, []) \<noteq> Inr (stats, []))
        \<and> \<not> prefix ''Port:'' (TrimSpace l)
        \<and> length (keyValRegex_FindStringSubmatch (TrimSpace l)) = 3
        \<and> (\<exists>ne. ParseUint (removeCommas (keyValRegex_FindStringSubmatch (TrimSpace l) ! 2)) = Inl ne)"
  then have s: "Split outp LF = pre @ l # post"
    and st: "\<forall>stats. countersLoop pre (Map.empty, []) \<noteq> Inr (stats, [])"
    and np: "\<not> prefix ''Port:'' (TrimSpace l)"
    and m: "length (keyValRegex_FindStringSubmatch (TrimSpace l)) = 3"
    by blast+
  from a obtain ne where
    bad: "ParseUint (removeCommas (keyValRegex_FindStringSubmatch (TrimSpace l) ! 2)) = Inl ne"
    by blast
  from countersLoop_fail_at [OF st np m bad]
  obtain e where "countersLoop (pre @ l # post) (Map.empty, []) = Inl e" by blast
  then show "\<exists>e. ParseInterfaceCounters outp = Inl e"
    unfolding ParseInterfaceCounters_def s by simp
next
  show "\<exists>r. ParseInterfaceStatus outp = Inr r"
    unfolding ParseInterfaceStatus_def by (rule statusLoop_Inr)
  show "\<exists>r. ParseInterfaceConfig outp = Inr r"
    unfolding ParseInterfaceConfig_def by (rule configLoop_Inr)
  show "\<exists>r. ParseMACTable outp = Inr r"
    unfolding ParseMACTable_def by (rule macLoop_Inr)
next
  assume "length (Fields (TrimSpace l)) = 5 \<and> (\<exists>ne. Atoi (Fields (TrimSpace l) ! 1) = Inl ne)"
  then show "macLine l results = Inr results" by (intro macLine_skip) blast
qed

theorem numeric_failure_policy_witness:
  "Split (''Port: Gi1/0/1'' @ [LF] @ ''InOctets: 99999999999999999999'') LF
      = [''Port: Gi1/0/1''] @ ''InOctets: 99999999999999999999'' # []
   \<and> (\<forall>stats. countersLoop [''Port: Gi1/0/1''] (Map.empty, []) \<noteq> Inr (stats, []))
   \<and> length (keyValRegex_FindStringSubmatch (TrimSpace ''InOctets: 99999999999999999999'')) = 3
   \<and> ParseUint (removeCommas
         (keyValRegex_FindStringSubmatch (TrimSpace ''InOctets: 99999999999999999999'') ! 2))
       = Inl ErrRange
   \<and> (\<exists>e. ParseInterfaceCounters (''Port: Gi1/0/1'' @ [LF] @ ''InOctets: 99999999999999999999'')
         = Inl e)
   \<and> Atoi (Fields (TrimSpace ''Tw1/0/1 4.2 8.4 52.0 Class1 ON'') ! 2) = Inl ErrSyntax
   \<and> (\<exists>e. ParsePoETable
         (\<lambda>s. if s = ''4.2'' then Some (21 / 5 :: rat) else if s = ''52.0'' then Some 52 else None)
         ''Tw1/0/1 4.2 8.4 52.0 Class1 ON'' = Inl e)
   \<and> macLine ''00:11:22:33:44:55 v1 Gi1/0/2 dynamic aging'' [] = Inr []"
proof -
  let ?pf = "\<lambda>s. if s = ''4.2'' then Some (21 / 5 :: rat) else if s = ''52.0'' then Some 52 else None"
  let ?o = "''Port: Gi1/0/1'' @ [LF] @ ''InOctets: 99999999999999999999''"
  let ?l = "''InOctets: 99999999999999999999''"
  have s: "Split ?o LF = [''Port: Gi1/0/1''] @ ?l # []" by (simp add: LF_def)
  have t1: "TrimSpace ''Port: Gi1/0/1'' = ''Port: Gi1/0/1''"
    and t: "TrimSpace ?l = ?l"
    by (simp_all add: TrimSpace_def cls_defs)
  have st: "\<forall>stats. countersLoop [''Port: Gi1/0/1''] (Map.empty, []) \<noteq> Inr (stats, [])"
    using countersLine_port [OF t1, of "(Map.empty, [])"] by simp
  have np: "\<not> prefix ''Port:'' (TrimSpace ?l)" unfolding t by simp
  have g: "keyValRegex_FindStringSubmatch (TrimSpace ?l) = [?l, ''InOctets'', ''99999999999999999999'']"
    unfolding t by (simp add: kv_defs cls_defs)
  have m: "length (keyValRegex_FindStringSubmatch (TrimSpace ?l)) = 3" unfolding g by simp
  have bad: "ParseUint (removeCommas (keyValRegex_FindStringSubmatch (TrimSpace ?l) ! 2)) = Inl ErrRange"
    unfolding g by (simp add: ParseUint_def removeCommas_def decimal_def cls_defs)
  from numeric_failure_policy [of ?o "[''Port: Gi1/0/1'']" ?l "[]" ?pf "[]"] s st np m bad
  have 1: "\<exists>e. ParseInterfaceCounters ?o = Inl e" by blast
  let ?p = "''Tw1/0/1 4.2 8.4 52.0 Class1 ON''"
  have sp: "Split ?p LF = [] @ ?p # []" by (simp add: LF_def)
  have fp: "Fields (TrimSpace ?p) = [''Tw1/0/1'', ''4.2'', ''8.4'', ''52.0'', ''Class1'', ''ON'']"
    by (simp add: TrimSpace_def cls_defs)
  have tw: "prefix ''Tw'' (TrimSpace ?p)" by (simp add: TrimSpace_def cls_defs)
  have six: "6 \<le> length (Fields (TrimSpace ?p))" unfolding fp by simp
  have at: "Atoi (Fields (TrimSpace ?p) ! 2) = Inl ErrSyntax"
    unfolding fp by (simp add: Atoi_def cls_defs)
  from numeric_failure_policy [of ?p "[]" ?p "[]" ?pf "[]"] sp tw six at
  have 2: "\<exists>e. ParsePoETable ?pf ?p = Inl e" by blast
  let ?m = "''00:11:22:33:44:55 v1 Gi1/0/2 dynamic aging''"
  have fm: "Fields (TrimSpace ?m) = [''00:11:22:33:44:55'', ''v1'', ''Gi1/0/2'', ''dynamic'', ''aging'']"
    by (simp add: TrimSpace_def cls_defs)
  have n5: "length (Fields (TrimSpace ?m)) = 5" unfolding fm by simp
  have am: "Atoi (Fields (TrimSpace ?m) ! 1) = Inl ErrSyntax"
    unfolding fm by (simp add: Atoi_def cls_defs)
  from numeric_failure_policy [of ?m "[]" ?m "[]" ?pf "[]"] n5 am
  have 3: "macLine ?m [] = Inr []" by blast
  from s st m bad 1 at 2 3 show ?thesis by blast
qed

text \<open>
  A counter of twenty digits does not fit 64 bits: the row matches the pattern,
  \<^verbatim>\<open>ParseUint\<close> reports a range error, and \<^verbatim>\<open>ParseInterfaceCounters\<close> returns an error
  for the whole input.
\<close>

theorem numeric_failure_counterexample:
  "keyValRegex_FindStringSubmatch ''InOctets: 99999999999999999999''
     = [''InOctets: 99999999999999999999'', ''InOctets'', ''99999999999999999999'']
   \<and> ParseUint ''99999999999999999999'' = Inl ErrRange
   \<and> ParseInterfaceCounters (''Port: Gi1/0/1'' @ [LF] @ ''InOctets: 99999999999999999999'')
       = Inl (InvalidNumber ''InOctets'')"
  by (simp add: ParseInterfaceCounters_def countersLine_def Let_def TrimSpace_def SplitN2_def
      ParseUint_def removeCommas_def decimal_def kv_defs cls_defs)

end
